theory Spec2Isabelle
  imports Complex_Main
begin

section \<open>Data model (src/types.ts, src/constants.ts)\<close>

datatype CellType = WALL | PATH | START | END

text \<open>
  A grid is an array of rows, indexed \<open>grid[z][x]\<close>.  A continuous position is a pair
  \<open>(x, z)\<close> of numbers, a grid cell a pair \<open>(x, z)\<close> of integers.  JavaScript numbers are
  modelled by the reals (no rounding, no NaN, no infinities).
\<close>

type_synonym grid = "CellType list list"
type_synonym Position = "real \<times> real"
type_synonym cell = "int \<times> int"

definition PLAYER_RADIUS :: real where
  "PLAYER_RADIUS = 3 / 10"

definition PULVERISE_RADIUS :: real where
  "PULVERISE_RADIUS = 35 / 10"

text \<open>
  \<open>grid[z][x]\<close> for a row index \<open>z\<close> that the caller has already checked:
  \<open>None\<close> is JavaScript's \<open>undefined\<close>, read from a row shorter than \<open>x\<close>.
\<close>

definition cell_at :: "grid \<Rightarrow> int \<Rightarrow> int \<Rightarrow> CellType option" where
  "cell_at g x z =
     (if 0 \<le> z \<and> z < int (length g) \<and> 0 \<le> x \<and> x < int (length (g ! nat z))
      then Some (g ! nat z ! nat x) else None)"

text \<open>
  The bounds test both functions use:
  \<open>cz >= 0 && cz < map.length && cx >= 0 && cx < map[0].length\<close>.
  \<open>map[0]\<close> is only evaluated once \<open>0 \<le> cz < map.length\<close> holds, so the grid has a first row.
\<close>

definition in_bounds :: "grid \<Rightarrow> int \<Rightarrow> int \<Rightarrow> bool" where
  "in_bounds g cx cz =
     (cz \<ge> 0 \<and> cz < int (length g) \<and> cx \<ge> 0 \<and> cx < int (length (g ! 0)))"

section \<open>checkWallCollision (src/App.tsx)\<close>

text \<open>The body of the two nested loops: the cell test and the box overlap test.\<close>

definition wall_overlap :: "real \<Rightarrow> real \<Rightarrow> grid \<Rightarrow> int \<Rightarrow> int \<Rightarrow> bool" where
  "wall_overlap x z g cx cz =
     (let pMinX = x - PLAYER_RADIUS; pMaxX = x + PLAYER_RADIUS;
          pMinZ = z - PLAYER_RADIUS; pMaxZ = z + PLAYER_RADIUS
      in in_bounds g cx cz \<and> cell_at g cx cz = Some WALL \<and>
         (let wMinX = real_of_int cx - 1 / 2; wMaxX = real_of_int cx + 1 / 2;
              wMinZ = real_of_int cz - 1 / 2; wMaxZ = real_of_int cz + 1 / 2
          in pMinX < wMaxX \<and> pMaxX > wMinX \<and> pMinZ < wMaxZ \<and> pMaxZ > wMinZ))"

text \<open>\<open>for (let cx = startX; cx < endX; cx++)\<close>, returning true at the first overlap.\<close>

function scan_cx :: "real \<Rightarrow> real \<Rightarrow> grid \<Rightarrow> int \<Rightarrow> int \<Rightarrow> int \<Rightarrow> bool" where
  "scan_cx x z g cz cx endX =
     (if cx < endX
      then (if wall_overlap x z g cx cz then True else scan_cx x z g cz (cx + 1) endX)
      else False)"
  by pat_completeness auto
termination
  by (relation "measure (\<lambda>(x, z, g, cz, cx, endX). nat (endX - cx))") auto

text \<open>\<open>for (let cz = startZ; cz < endZ; cz++)\<close> around it.\<close>

function scan_cz :: "real \<Rightarrow> real \<Rightarrow> grid \<Rightarrow> int \<Rightarrow> int \<Rightarrow> int \<Rightarrow> int \<Rightarrow> bool" where
  "scan_cz x z g startX endX cz endZ =
     (if cz < endZ
      then (if scan_cx x z g cz startX endX then True
            else scan_cz x z g startX endX (cz + 1) endZ)
      else False)"
  by pat_completeness auto
termination
  by (relation "measure (\<lambda>(x, z, g, startX, endX, cz, endZ). nat (endZ - cz))") auto

definition checkWallCollision :: "real \<Rightarrow> real \<Rightarrow> grid \<Rightarrow> bool" where
  "checkWallCollision x z g =
     (let pMinX = x - PLAYER_RADIUS; pMaxX = x + PLAYER_RADIUS;
          pMinZ = z - PLAYER_RADIUS; pMaxZ = z + PLAYER_RADIUS;
          startX = \<lfloor>pMinX - 1 / 2\<rfloor>; endX = \<lceil>pMaxX + 1 / 2\<rceil>;
          startZ = \<lfloor>pMinZ - 1 / 2\<rfloor>; endZ = \<lceil>pMaxZ + 1 / 2\<rceil>
      in scan_cz x z g startX endX startZ endZ)"


text \<open>A small grid used to run the definitions: a two-cell corridor inside walls.\<close>

definition corridor_grid :: grid where
  "corridor_grid =
     [[WALL, WALL, WALL, WALL], [WALL, PATH, PATH, WALL], [WALL, WALL, WALL, WALL]]"

section \<open>Session state: hits and the area-clear ability (src/App.tsx)\<close>

datatype GamePhase = MENU | MEMORIZE | PLAYING | MAP_PEEK | GAME_OVER | LEVEL_COMPLETE | VICTORY

datatype ObstacleType = STATIC_SPIKE | PATROL_ENEMY

datatype Axis = AxisX | AxisZ

text \<open>
  An obstacle as \<open>startLevel\<close> creates it: the optional fields \<open>axis\<close>, \<open>speed\<close>, \<open>range\<close> and
  \<open>initialPos\<close> are all set there (and \<open>direction\<close> never is).
\<close>

record Obstacle =
  obs_id :: string
  obs_pos :: Position
  obs_type :: ObstacleType
  obs_axis :: Axis
  obs_speed :: real
  obs_range :: real
  obs_initialPos :: Position

text \<open>
  The part of the component state that hits and the ability read and write.
  \<open>invulnerable\<close> is \<open>invulnerableRef.current\<close>; \<open>timeouts\<close> holds, for every pending
  \<open>setTimeout\<close> callback of \<open>handleHit\<close>, the milliseconds left before it runs.
\<close>

record Game =
  phase :: GamePhase
  isPaused :: bool
  lives :: int
  playerPos :: Position
  obstacles :: "Obstacle list"
  canPulverise :: bool
  pulveriseCooldown :: int
  invulnerable :: bool
  timeouts :: "nat list"

text \<open>
  The position of an obstacle at time \<open>t\<close> (seconds), as both \<open>update\<close> and
  \<open>handlePulverise\<close> compute it.
\<close>

definition live_pos :: "real \<Rightarrow> Obstacle \<Rightarrow> Position" where
  "live_pos t obs =
     (let obsX = fst (obs_initialPos obs); obsZ = snd (obs_initialPos obs)
      in if obs_type obs = PATROL_ENEMY
         then (let move = sin (t * obs_speed obs) * obs_range obs
               in if obs_axis obs = AxisX then (obsX + move, obsZ) else (obsX, obsZ + move))
         else (obsX, obsZ))"

definition dist_to :: "Position \<Rightarrow> Position \<Rightarrow> real" where
  "dist_to p q = sqrt ((fst p - fst q)\<^sup>2 + (snd p - snd q)\<^sup>2)"

definition handleHit :: "Game \<Rightarrow> Game" where
  "handleHit s =
     (let newLives = lives s - 1
      in s\<lparr>invulnerable := True,
           lives := newLives,
           phase := (if newLives \<le> 0 then GAME_OVER else phase s),
           timeouts := timeouts s @ [1500]\<rparr>)"

text \<open>
  The body of \<open>obstacles.forEach\<close> in \<open>update\<close>.  The player position is the one of the
  closure, read before the loop; \<open>nearbyEnemy\<close> and the state are threaded through.
\<close>

definition obstacle_step :: "real \<Rightarrow> Position \<Rightarrow> Obstacle \<Rightarrow> bool \<times> Game \<Rightarrow> bool \<times> Game" where
  "obstacle_step t pp obs acc =
     (let d = dist_to (live_pos t obs) pp;
          nearbyEnemy = (if d < PULVERISE_RADIUS then True else fst acc);
          s = (if d < PLAYER_RADIUS + 35 / 100 \<and> \<not> invulnerable (snd acc)
               then handleHit (snd acc) else snd acc)
      in (nearbyEnemy, s))"

text \<open>
  One frame of the game loop, step 3 (obstacles) with the guard of \<open>update\<close>.  Rotation,
  movement, pick-up and the win check (steps 1, 2, 4, 5) never call \<open>handleHit\<close> and never
  read or write \<open>invulnerableRef\<close>, the obstacle list or the cooldown.  Their effects on
  this state (the player moves, a life is gained, the phase changes) are events of their
  own below.
\<close>

definition update :: "real \<Rightarrow> Game \<Rightarrow> Game" where
  "update t s =
     (if phase s \<noteq> PLAYING \<or> isPaused s then s
      else (let r = fold (obstacle_step t (playerPos s)) (obstacles s) (False, s)
            in (snd r)\<lparr>canPulverise := (fst r \<and> pulveriseCooldown s = 0)\<rparr>))"

text \<open>
  Time passing: each pending callback whose delay has run out executes
  \<open>invulnerableRef.current = false\<close> and is dropped; the others get closer.
\<close>

definition elapse :: "nat \<Rightarrow> Game \<Rightarrow> Game" where
  "elapse ms s =
     s\<lparr>invulnerable := (if list_ex (\<lambda>r. r \<le> ms) (timeouts s) then False else invulnerable s),
       timeouts := map (\<lambda>r. r - ms) (filter (\<lambda>r. ms < r) (timeouts s))\<rparr>"

text \<open>The one-second interval of the cooldown effect: it runs while the cooldown is positive
  and the game is not paused.\<close>

definition cooldown_second :: "Game \<Rightarrow> Game" where
  "cooldown_second s =
     (if \<not> isPaused s \<and> pulveriseCooldown s > 0
      then s\<lparr>pulveriseCooldown := max 0 (pulveriseCooldown s - 1)\<rparr> else s)"

definition handlePulverise :: "real \<Rightarrow> Game \<Rightarrow> Game" where
  "handlePulverise t s =
     (if \<not> canPulverise s then s
      else s\<lparr>obstacles :=
                filter (\<lambda>obs. dist_to (live_pos t obs) (playerPos s) > PULVERISE_RADIUS)
                  (obstacles s),
             pulveriseCooldown := 3,
             canPulverise := False\<rparr>)"

text \<open>
  What can happen to the session between two looks at it: a frame at time \<open>t\<close>, some
  milliseconds passing, a tick of the cooldown interval, a press of the ability button (at
  \<open>performance.now() / 1000 = t\<close>), the player moving, the pause button, an EXTRA_LIFE
  power-up collected (\<open>setLives(l => l + 1)\<close>), the phase set by a timer, a button or the
  win check.
\<close>

datatype event =
    Frame real
  | Elapse nat
  | CooldownSecond
  | Pulverise real
  | MovePlayer Position
  | SetPaused bool
  | ExtraLife
  | SetPhase GamePhase

fun apply_event :: "event \<Rightarrow> Game \<Rightarrow> Game" where
  "apply_event (Frame t) s = update t s"
| "apply_event (Elapse ms) s = elapse ms s"
| "apply_event CooldownSecond s = cooldown_second s"
| "apply_event (Pulverise t) s = handlePulverise t s"
| "apply_event (MovePlayer p) s = s\<lparr>playerPos := p\<rparr>"
| "apply_event (SetPaused b) s = s\<lparr>isPaused := b\<rparr>"
| "apply_event ExtraLife s = s\<lparr>lives := lives s + 1\<rparr>"
| "apply_event (SetPhase p) s = s\<lparr>phase := p\<rparr>"

definition run :: "event list \<Rightarrow> Game \<Rightarrow> Game" where
  "run es s = fold apply_event es s"



text \<open>The state of the component when it is mounted.\<close>

definition initial_game :: Game where
  "initial_game =
     \<lparr>phase = MENU, isPaused = False, lives = 3, playerPos = (1, 1), obstacles = [],
      canPulverise = False, pulveriseCooldown = 0, invulnerable = False, timeouts = []\<rparr>"

text \<open>
  The pending callbacks agree with the flag: none while the player is vulnerable, exactly
  one (with at most 1500 ms left) while invulnerable.  This holds initially
  (\<open>invulnerableRef = false\<close>, nothing scheduled) and after every event.
\<close>

definition timers_consistent :: "Game \<Rightarrow> bool" where
  "timers_consistent s =
     (if invulnerable s
      then (case timeouts s of [r] \<Rightarrow> 0 < r \<and> r \<le> 1500 | _ \<Rightarrow> False)
      else timeouts s = [])"


text \<open>Is the obstacle in contact with the player at time \<open>t\<close>?\<close>

definition in_contact :: "real \<Rightarrow> Position \<Rightarrow> Obstacle \<Rightarrow> bool" where
  "in_contact t pp obs = (dist_to (live_pos t obs) pp < PLAYER_RADIUS + 35 / 100)"




section \<open>findEmptySpots (src/utils/maze.ts)\<close>

datatype error = TypeError | RangeError | RowExtended

text \<open>
  \<open>Math.random()\<close> is a parameter: \<open>rnd k\<close> is the natural number that decides the
  \<open>k\<close>-th draw.  \<open>Math.floor(Math.random() * n)\<close> is an integer in \<open>[0, n)\<close>, any of them for
  a suitable draw, and 0 when \<open>n = 0\<close>.
\<close>

definition rand_below :: "nat \<Rightarrow> nat \<Rightarrow> int" where
  "rand_below r n = (if n = 0 then 0 else int (r mod n))"

text \<open>\<open>const attempts = 0\<close>: declared once, never assigned again.\<close>

definition attempts :: int where
  "attempts = 0"

text \<open>
  The while loop.  \<open>k\<close> counts the draws made so far.  A run that never leaves the loop has
  the value \<open>None\<close>.
\<close>

partial_function (option) spots_loop ::
  "(nat \<Rightarrow> nat) \<Rightarrow> grid \<Rightarrow> int \<Rightarrow> bool \<Rightarrow> nat \<Rightarrow> cell list \<Rightarrow> cell list option" where
  "spots_loop rnd g count excludeNearStart k spots =
     (if int (length spots) < count \<and> attempts < 1000
      then (case (rand_below (rnd k) (length (g ! 0)), rand_below (rnd (k + 1)) (length g)) of
              (x, z) \<Rightarrow>
                if cell_at g x z = Some PATH
                then (if excludeNearStart \<and> x < 4 \<and> z < 4
                      then spots_loop rnd g count excludeNearStart (k + 2) spots
                      else if \<not> list_ex (\<lambda>s. fst s = x \<and> snd s = z) spots
                      then spots_loop rnd g count excludeNearStart (k + 2) (spots @ [(x, z)])
                      else spots_loop rnd g count excludeNearStart (k + 2) spots)
                else spots_loop rnd g count excludeNearStart (k + 2) spots)
      else Some spots)"

text \<open>
  \<open>grid[0].length\<close> throws a TypeError on a grid without rows.  Otherwise the result is the
  loop's, if it has one.
\<close>

definition findEmptySpots ::
  "(nat \<Rightarrow> nat) \<Rightarrow> grid \<Rightarrow> int \<Rightarrow> bool \<Rightarrow> (error + cell list) option" where
  "findEmptySpots rnd g count excludeNearStart =
     (case g of
        [] \<Rightarrow> Some (Inl TypeError)
      | row # rows \<Rightarrow> map_option Inr (spots_loop rnd g count excludeNearStart 0 []))"




definition wall_grid :: grid where
  "wall_grid = [[WALL, WALL], [WALL, WALL]]"


section \<open>findShortestPath (src/utils/maze.ts)\<close>

text \<open>The four neighbours of a cell, in the order of the source.\<close>

definition neighbors :: "cell \<Rightarrow> cell list" where
  "neighbors pos =
     [(fst pos + 1, snd pos), (fst pos - 1, snd pos), (fst pos, snd pos + 1),
      (fst pos, snd pos - 1)]"

text \<open>
  The two tests on a neighbour: it is in bounds (against the length of row 0) and
  \<open>grid[z][x] !== WALL\<close>.  A cell missing from a short row reads \<open>undefined\<close>, which is
  not WALL.
\<close>

definition walkable :: "grid \<Rightarrow> cell \<Rightarrow> bool" where
  "walkable g n = (in_bounds g (fst n) (snd n) \<and> cell_at g (fst n) (snd n) \<noteq> Some WALL)"

text \<open>
  The search state: the visited set (keys \<open>"x,z"\<close>, one for each integer pair) and the
  queue of positions with the path that led to each.
\<close>

type_synonym bfs_state = "cell set \<times> (cell \<times> cell list) list"

text \<open>The body of \<open>for (const neighbor of neighbors)\<close>.\<close>

definition visit :: "grid \<Rightarrow> cell list \<Rightarrow> cell \<Rightarrow> bfs_state \<Rightarrow> bfs_state" where
  "visit g path n st =
     (if walkable g n
      then (if n \<notin> fst st then (insert n (fst st), snd st @ [(n, path @ [n])]) else st)
      else st)"

text \<open>The cells inside the bounds, and what is left of the search.\<close>

definition grid_cells :: "grid \<Rightarrow> cell set" where
  "grid_cells g = {0 ..< int (length (g ! 0))} \<times> {0 ..< int (length g)}"

definition bfs_measure :: "grid \<Rightarrow> bfs_state \<Rightarrow> nat" where
  "bfs_measure g st = 2 * card (grid_cells g - fst st) + length (snd st)"

text \<open>\<open>while (queue.length > 0)\<close>, with \<open>queue.shift()\<close> taking the head.\<close>

function bfs_loop :: "grid \<Rightarrow> cell \<Rightarrow> cell set \<Rightarrow> (cell \<times> cell list) list \<Rightarrow> cell list" where
  "bfs_loop g e visited [] = []"
| "bfs_loop g e visited ((pos, path) # queue) =
     (if pos = e then path
      else (case fold (visit g path) (neighbors pos) (visited, queue) of
              (visited', queue') \<Rightarrow> bfs_loop g e visited' queue'))"
  by pat_completeness auto
termination
proof (relation "measure (\<lambda>(g, e, visited, queue). bfs_measure g (visited, queue))")
  show "wf (measure (\<lambda>(g, e, visited, queue). bfs_measure g (visited, queue)))"
    by simp
next
  fix g :: grid and e pos :: cell and visited :: "cell set"
    and path :: "cell list" and queue :: "(cell \<times> cell list) list"
    and visited' :: "cell set" and queue' :: "(cell \<times> cell list) list"
  assume "pos \<noteq> e"
    and x: "(visited', queue') = fold (visit g path) (neighbors pos) (visited, queue)"
  have fin: "finite (grid_cells g)" by (simp add: grid_cells_def)
  have one: "bfs_measure g (visit g path n st) \<le> bfs_measure g st" for n st
  proof (cases "walkable g n \<and> n \<notin> fst st")
    case False
    then show ?thesis by (auto simp: visit_def)
  next
    case True
    then have mem: "n \<in> grid_cells g - fst st"
      by (cases n) (auto simp: walkable_def in_bounds_def grid_cells_def)
    have eq: "grid_cells g - insert n (fst st) = (grid_cells g - fst st) - {n}" by auto
    have "finite (grid_cells g - fst st)" using fin by simp
    from card_Diff1_less [OF this mem]
    have "card (grid_cells g - insert n (fst st)) < card (grid_cells g - fst st)"
      unfolding eq .
    with True show ?thesis by (simp add: visit_def bfs_measure_def)
  qed
  have all: "bfs_measure g (fold (visit g path) ns st) \<le> bfs_measure g st" for ns st
  proof (induction ns arbitrary: st)
    case Nil
    show ?case by simp
  next
    case (Cons n ns)
    have "bfs_measure g (fold (visit g path) (n # ns) st) \<le> bfs_measure g (visit g path n st)"
      using Cons.IH by simp
    also have "\<dots> \<le> bfs_measure g st" by (rule one)
    finally show ?case .
  qed
  have "bfs_measure g (visited', queue') \<le> bfs_measure g (visited, queue)"
    unfolding x by (rule all)
  also have "\<dots> < bfs_measure g (visited, (pos, path) # queue)"
    by (simp add: bfs_measure_def)
  finally show "((g, e, visited', queue'), (g, e, visited, (pos, path) # queue))
      \<in> measure (\<lambda>(g, e, visited, queue). bfs_measure g (visited, queue))"
    by simp
qed

definition findShortestPath :: "grid \<Rightarrow> Position \<Rightarrow> Position \<Rightarrow> cell list" where
  "findShortestPath g start end =
     (let startX = \<lfloor>fst start\<rfloor>; startZ = \<lfloor>snd start\<rfloor>;
          endX = \<lfloor>fst end\<rfloor>; endZ = \<lfloor>snd end\<rfloor>
      in bfs_loop g (endX, endZ) {(startX, startZ)} [((startX, startZ), [(startX, startZ)])])"

text \<open>
  One step of a route: to one of the four neighbours, which must be in bounds and not a
  wall.  A route is a non-empty sequence of such steps; nothing is asked of its first cell.
\<close>

definition step :: "grid \<Rightarrow> cell \<Rightarrow> cell \<Rightarrow> bool" where
  "step g a b = (b \<in> set (neighbors a) \<and> walkable g b)"

definition route :: "grid \<Rightarrow> cell \<Rightarrow> cell \<Rightarrow> cell list \<Rightarrow> bool" where
  "route g s e p = (p \<noteq> [] \<and> hd p = s \<and> last p = e \<and> successively (step g) p)"

text \<open>Two cells that differ by exactly one unit in exactly one axis.\<close>

definition unit_apart :: "cell \<Rightarrow> cell \<Rightarrow> bool" where
  "unit_apart a b =
     ((\<bar>fst a - fst b\<bar> = 1 \<and> snd a = snd b) \<or> (fst a = fst b \<and> \<bar>snd a - snd b\<bar> = 1))"

text \<open>
  What holds of the search state each time the loop tests its condition, for a search from
  \<open>s\<close> to \<open>e\<close>: the queued cells are distinct and visited, each with a shortest route to it;
  the visited cells no longer queued are not the goal and have all their open neighbours
  visited; the queued paths grow in length along the queue, by at most one overall.
\<close>

definition bfs_inv ::
  "grid \<Rightarrow> cell \<Rightarrow> cell \<Rightarrow> cell set \<Rightarrow> (cell \<times> cell list) list \<Rightarrow> bool" where
  "bfs_inv g s e vis q =
     (s \<in> vis \<and>
      distinct (map fst q) \<and> fst ` set q \<subseteq> vis \<and>
      (\<forall>x \<in> set q. route g s (fst x) (snd x) \<and>
         (\<forall>r. route g s (fst x) r \<longrightarrow> length (snd x) \<le> length r)) \<and>
      (\<forall>v \<in> vis - fst ` set q. v \<noteq> e \<and> (\<forall>n. step g v n \<longrightarrow> n \<in> vis)) \<and>
      sorted (map (\<lambda>x. length (snd x)) q) \<and>
      (\<forall>x \<in> set q. length (snd x) \<le> length (snd (hd q)) + 1))"

section \<open>generateMaze (src/utils/maze.ts)\<close>

definition directions :: "cell list" where
  "directions = [(0, - 2), (2, 0), (0, 2), (- 2, 0)]"

text \<open>
  \<open>array.sort(() => Math.random() - 0.5)\<close> returns the array in an order that the random
  draws decide.  The model takes one number \<open>r\<close> for the whole call and decodes the order
  from it: the first element is inserted at position \<open>r mod n\<close> of the shuffled rest.  Every
  order of the array is the result for some \<open>r\<close> (lemma \<open>shuffle_any_order\<close>).
\<close>

fun shuffle :: "nat \<Rightarrow> 'a list \<Rightarrow> 'a list" where
  "shuffle r [] = []"
| "shuffle r (x # xs) =
     (let ys = shuffle (r div Suc (length xs)) xs; i = r mod Suc (length xs)
      in take i ys @ x # drop i ys)"

definition isInBounds :: "int \<Rightarrow> int \<Rightarrow> int \<Rightarrow> int \<Rightarrow> bool" where
  "isInBounds width height x z = (x > 0 \<and> x < width - 1 \<and> z > 0 \<and> z < height - 1)"

text \<open>\<open>grid[z][x] = v\<close>, for a cell inside the grid.\<close>

definition set_cell :: "grid \<Rightarrow> int \<Rightarrow> int \<Rightarrow> CellType \<Rightarrow> grid" where
  "set_cell g x z v = g[nat z := (g ! nat z)[nat x := v]]"

text \<open>
  What \<open>carve\<close> changes: the grid, the set \<open>carved\<close> (keys \<open>"x,z"\<close>) and the number of
  shuffles made so far, which selects the next draw.
\<close>

record maze_state =
  ms_grid :: grid
  ms_carved :: "cell set"
  ms_draws :: nat

text \<open>
  The first statements of \<open>carve(x, z)\<close>: \<open>carved.add\<close>, \<open>grid[z][x] = PATH\<close>, and the
  shuffle, which uses up one draw.  And the statement that opens the wall between
  \<open>(x, z)\<close> and its neighbour in direction \<open>dir\<close>.
\<close>

definition mark_carved :: "int \<Rightarrow> int \<Rightarrow> maze_state \<Rightarrow> maze_state" where
  "mark_carved x z st =
     st\<lparr>ms_carved := insert (x, z) (ms_carved st),
        ms_grid := set_cell (ms_grid st) x z PATH,
        ms_draws := Suc (ms_draws st)\<rparr>"

definition open_wall :: "int \<Rightarrow> int \<Rightarrow> cell \<Rightarrow> maze_state \<Rightarrow> maze_state" where
  "open_wall x z dir st =
     st\<lparr>ms_grid := set_cell (ms_grid st) (x + fst dir div 2) (z + snd dir div 2) PATH\<rparr>"

text \<open>
  \<open>carve\<close> and its loop over the shuffled directions.  The first argument bounds the depth
  of the recursion; \<open>None\<close> means that the bound was reached.  \<open>generateMaze\<close> starts with
  a bound that is never reached (lemma \<open>carve_bound_not_reached\<close>).
\<close>

fun carve :: "nat \<Rightarrow> (nat \<Rightarrow> nat) \<Rightarrow> int \<Rightarrow> int \<Rightarrow> int \<Rightarrow> int \<Rightarrow> maze_state
    \<Rightarrow> maze_state option"
  and carve_dirs :: "nat \<Rightarrow> (nat \<Rightarrow> nat) \<Rightarrow> int \<Rightarrow> int \<Rightarrow> cell list \<Rightarrow> int \<Rightarrow> int
    \<Rightarrow> maze_state \<Rightarrow> maze_state option" where
  "carve 0 rnd width height x z st = None"
| "carve (Suc n) rnd width height x z st =
     carve_dirs n rnd width height (shuffle (rnd (ms_draws st)) directions) x z
       (mark_carved x z st)"
| "carve_dirs n rnd width height [] x z st = Some st"
| "carve_dirs n rnd width height (dir # dirs) x z st =
     (if isInBounds width height (x + fst dir) (z + snd dir) \<and>
         (x + fst dir, z + snd dir) \<notin> ms_carved st
      then (case carve n rnd width height (x + fst dir) (z + snd dir) (open_wall x z dir st) of
              None \<Rightarrow> None
            | Some st' \<Rightarrow> carve_dirs n rnd width height dirs x z st')
      else carve_dirs n rnd width height dirs x z st)"




text \<open>
  The perfect-maze property.  A cell is open when it is inside the grid and not WALL; two
  cells are adjacent when they differ by one unit in one axis; a simple path is a
  non-empty sequence of distinct open cells, each adjacent to the next.
\<close>

definition open_cell :: "grid \<Rightarrow> cell \<Rightarrow> bool" where
  "open_cell g c = (case cell_at g (fst c) (snd c) of None \<Rightarrow> False | Some t \<Rightarrow> t \<noteq> WALL)"

definition adjacent :: "cell \<Rightarrow> cell \<Rightarrow> bool" where
  "adjacent a b = (\<bar>fst a - fst b\<bar> + \<bar>snd a - snd b\<bar> = 1)"



text \<open>Sets of cells that grow from one cell by adding, each time, a cell with exactly one
  neighbour in the set.\<close>

inductive tree_set :: "cell set \<Rightarrow> bool" where
  single: "tree_set {c}"
| leaf: "tree_set S \<Longrightarrow> v \<notin> S \<Longrightarrow> u \<in> S \<Longrightarrow> adjacent u v \<Longrightarrow>
         (\<forall>w \<in> S. adjacent w v \<longrightarrow> w = u) \<Longrightarrow> tree_set (insert v S)"

text \<open>
  What holds of the state between two steps of the carving: the grid is a rectangle;
  the carved cells are open rooms (odd coordinates, inside the border); an open cell is a
  carved room or lies between two carved rooms; the open cells form a tree.
\<close>

definition rect :: "int \<Rightarrow> int \<Rightarrow> grid \<Rightarrow> bool" where
  "rect width height g =
     (int (length g) = height \<and> (\<forall>row \<in> set g. int (length row) = width))"

definition open_cells :: "grid \<Rightarrow> cell set" where
  "open_cells g = {c. open_cell g c}"

definition layout_ok :: "int \<Rightarrow> int \<Rightarrow> cell set \<Rightarrow> cell set \<Rightarrow> bool" where
  "layout_ok width height opened carved =
     ((\<forall>c \<in> carved. odd (fst c) \<and> odd (snd c) \<and> isInBounds width height (fst c) (snd c) \<and>
         c \<in> opened) \<and>
      (\<forall>c \<in> opened.
         if odd (fst c) then
            (if odd (snd c) then c \<in> carved
             else (fst c, snd c - 1) \<in> carved \<and> (fst c, snd c + 1) \<in> carved)
         else odd (snd c) \<and> (fst c - 1, snd c) \<in> carved \<and> (fst c + 1, snd c) \<in> carved))"

definition maze_inv :: "int \<Rightarrow> int \<Rightarrow> maze_state \<Rightarrow> bool" where
  "maze_inv width height st =
     (rect width height (ms_grid st) \<and>
      layout_ok width height (open_cells (ms_grid st)) (ms_carved st) \<and>
      tree_set (open_cells (ms_grid st)))"

text \<open>The cells inside the border, and those not carved yet.\<close>

definition inner_cells :: "int \<Rightarrow> int \<Rightarrow> cell set" where
  "inner_cells width height = {1 ..< width - 1} \<times> {1 ..< height - 1}"

definition uncarved :: "int \<Rightarrow> int \<Rightarrow> maze_state \<Rightarrow> cell set" where
  "uncarved width height st = inner_cells width height - ms_carved st"

text \<open>A carved cell is finished when each of its neighbours two steps away, if inside the
  border, is carved too.\<close>

definition finished :: "int \<Rightarrow> int \<Rightarrow> maze_state \<Rightarrow> cell \<Rightarrow> bool" where
  "finished width height st c =
     (\<forall>d \<in> set directions. isInBounds width height (fst c + fst d) (snd c + snd d) \<longrightarrow>
        (fst c + fst d, snd c + snd d) \<in> ms_carved st)"

text \<open>
  What a call of the carving loop at \<open>(x, z)\<close> over the directions \<open>ds\<close> establishes, from
  state \<open>st\<close> to state \<open>st'\<close>.
\<close>

definition carve_post ::
  "int \<Rightarrow> int \<Rightarrow> int \<Rightarrow> int \<Rightarrow> cell list \<Rightarrow> maze_state \<Rightarrow> maze_state \<Rightarrow> bool" where
  "carve_post width height x z ds st st' =
     (maze_inv width height st' \<and>
      ms_carved st \<subseteq> ms_carved st' \<and>
      (\<forall>c \<in> ms_carved st' - ms_carved st. finished width height st' c) \<and>
      (\<forall>d \<in> set ds. isInBounds width height (x + fst d) (z + snd d) \<longrightarrow>
         (x + fst d, z + snd d) \<in> ms_carved st'))"


section \<open>Collision test and movement\<close>

declare scan_cx.simps [simp del] scan_cz.simps [simp del]

lemma scan_cx_iff:
  "scan_cx x z g cz cx endX \<longleftrightarrow> (\<exists>c. cx \<le> c \<and> c < endX \<and> wall_overlap x z g c cz)"
proof (induction x z g cz cx endX rule: scan_cx.induct)
  case (1 x z g cz cx endX)
  show ?case
  proof (cases "cx < endX")
    case False
    then show ?thesis by (subst scan_cx.simps) auto
  next
    case True
    show ?thesis
    proof (cases "wall_overlap x z g cx cz")
      case True
      with \<open>cx < endX\<close> show ?thesis by (subst scan_cx.simps) auto
    next
      case False
      have "scan_cx x z g cz cx endX = scan_cx x z g cz (cx + 1) endX"
        using False \<open>cx < endX\<close> by (subst scan_cx.simps) simp
      also have "\<dots> \<longleftrightarrow> (\<exists>c. cx + 1 \<le> c \<and> c < endX \<and> wall_overlap x z g c cz)"
        using "1.IH" [OF \<open>cx < endX\<close> False] .
      also have "\<dots> \<longleftrightarrow> (\<exists>c. cx \<le> c \<and> c < endX \<and> wall_overlap x z g c cz)"
      proof
        assume "\<exists>c. cx + 1 \<le> c \<and> c < endX \<and> wall_overlap x z g c cz"
        then obtain c where "cx + 1 \<le> c" "c < endX" "wall_overlap x z g c cz" by blast
        then show "\<exists>c. cx \<le> c \<and> c < endX \<and> wall_overlap x z g c cz"
          by (intro exI [of _ c]) simp
      next
        assume "\<exists>c. cx \<le> c \<and> c < endX \<and> wall_overlap x z g c cz"
        then obtain c where c: "cx \<le> c" "c < endX" "wall_overlap x z g c cz" by blast
        with False have "c \<noteq> cx" by auto
        with c show "\<exists>c. cx + 1 \<le> c \<and> c < endX \<and> wall_overlap x z g c cz"
          by (intro exI [of _ c]) simp
      qed
      finally show ?thesis .
    qed
  qed
qed

lemma scan_cz_iff:
  "scan_cz x z g startX endX cz endZ \<longleftrightarrow>
     (\<exists>r c. cz \<le> r \<and> r < endZ \<and> startX \<le> c \<and> c < endX \<and> wall_overlap x z g c r)"
proof (induction x z g startX endX cz endZ rule: scan_cz.induct)
  case (1 x z g startX endX cz endZ)
  show ?case
  proof (cases "cz < endZ")
    case False
    then show ?thesis by (subst scan_cz.simps) auto
  next
    case True
    show ?thesis
    proof (cases "scan_cx x z g cz startX endX")
      case True
      then obtain c where "startX \<le> c" "c < endX" "wall_overlap x z g c cz"
        unfolding scan_cx_iff by blast
      with \<open>cz < endZ\<close> have
        "\<exists>r c. cz \<le> r \<and> r < endZ \<and> startX \<le> c \<and> c < endX \<and> wall_overlap x z g c r"
        by (intro exI [of _ cz] exI [of _ c]) simp
      with True \<open>cz < endZ\<close> show ?thesis by (subst scan_cz.simps) simp
    next
      case False
      have "scan_cz x z g startX endX cz endZ = scan_cz x z g startX endX (cz + 1) endZ"
        using False \<open>cz < endZ\<close> by (subst scan_cz.simps) simp
      also have "\<dots> \<longleftrightarrow>
          (\<exists>r c. cz + 1 \<le> r \<and> r < endZ \<and> startX \<le> c \<and> c < endX \<and> wall_overlap x z g c r)"
        using "1.IH" [OF \<open>cz < endZ\<close> False] .
      also have "\<dots> \<longleftrightarrow>
          (\<exists>r c. cz \<le> r \<and> r < endZ \<and> startX \<le> c \<and> c < endX \<and> wall_overlap x z g c r)"
      proof
        assume "\<exists>r c. cz + 1 \<le> r \<and> r < endZ \<and> startX \<le> c \<and> c < endX \<and> wall_overlap x z g c r"
        then obtain r c where
          "cz + 1 \<le> r" "r < endZ" "startX \<le> c" "c < endX" "wall_overlap x z g c r" by blast
        then show "\<exists>r c. cz \<le> r \<and> r < endZ \<and> startX \<le> c \<and> c < endX \<and> wall_overlap x z g c r"
          by (intro exI [of _ r] exI [of _ c]) simp
      next
        assume "\<exists>r c. cz \<le> r \<and> r < endZ \<and> startX \<le> c \<and> c < endX \<and> wall_overlap x z g c r"
        then obtain r c where
          rc: "cz \<le> r" "r < endZ" "startX \<le> c" "c < endX" "wall_overlap x z g c r" by blast
        have "r \<noteq> cz"
        proof
          assume "r = cz"
          with rc have "scan_cx x z g cz startX endX" unfolding scan_cx_iff by blast
          with False show False by simp
        qed
        with rc show
          "\<exists>r c. cz + 1 \<le> r \<and> r < endZ \<and> startX \<le> c \<and> c < endX \<and> wall_overlap x z g c r"
          by (intro exI [of _ r] exI [of _ c]) simp
      qed
      finally show ?thesis .
    qed
  qed
qed

lemma wall_overlap_abs:
  "wall_overlap x z g cx cz \<longleftrightarrow>
     in_bounds g cx cz \<and> cell_at g cx cz = Some WALL \<and>
     \<bar>x - real_of_int cx\<bar> < 1 / 2 + PLAYER_RADIUS \<and> \<bar>z - real_of_int cz\<bar> < 1 / 2 + PLAYER_RADIUS"
  unfolding wall_overlap_def Let_def by (auto simp: abs_less_iff)

lemma overlap_in_range:
  fixes x r :: real and c :: int
  assumes "\<bar>x - real_of_int c\<bar> < 1 / 2 + r"
  shows "\<lfloor>x - r - 1 / 2\<rfloor> \<le> c \<and> c < \<lceil>x + r + 1 / 2\<rceil>"
proof
  from assms have "x - r - 1 / 2 < real_of_int c" by (simp add: abs_less_iff)
  then show "\<lfloor>x - r - 1 / 2\<rfloor> \<le> c" by linarith
  from assms have "real_of_int c < x + r + 1 / 2" by (simp add: abs_less_iff)
  then show "c < \<lceil>x + r + 1 / 2\<rceil>" by linarith
qed

lemma checkWallCollision_iff:
  "checkWallCollision x z g \<longleftrightarrow>
     (\<exists>cx cz. in_bounds g cx cz \<and> cell_at g cx cz = Some WALL \<and>
        \<bar>x - real_of_int cx\<bar> < 1 / 2 + PLAYER_RADIUS \<and>
        \<bar>z - real_of_int cz\<bar> < 1 / 2 + PLAYER_RADIUS)"
proof
  assume "checkWallCollision x z g"
  then obtain r c where "wall_overlap x z g c r"
    unfolding checkWallCollision_def Let_def scan_cz_iff by blast
  then show "\<exists>cx cz. in_bounds g cx cz \<and> cell_at g cx cz = Some WALL \<and>
        \<bar>x - real_of_int cx\<bar> < 1 / 2 + PLAYER_RADIUS \<and>
        \<bar>z - real_of_int cz\<bar> < 1 / 2 + PLAYER_RADIUS"
    unfolding wall_overlap_abs by blast
next
  assume "\<exists>cx cz. in_bounds g cx cz \<and> cell_at g cx cz = Some WALL \<and>
        \<bar>x - real_of_int cx\<bar> < 1 / 2 + PLAYER_RADIUS \<and>
        \<bar>z - real_of_int cz\<bar> < 1 / 2 + PLAYER_RADIUS"
  then obtain cx cz where h: "in_bounds g cx cz" "cell_at g cx cz = Some WALL"
    "\<bar>x - real_of_int cx\<bar> < 1 / 2 + PLAYER_RADIUS"
    "\<bar>z - real_of_int cz\<bar> < 1 / 2 + PLAYER_RADIUS" by blast
  then have w: "wall_overlap x z g cx cz" unfolding wall_overlap_abs by simp
  from overlap_in_range [OF h(3)] overlap_in_range [OF h(4)] w
  show "checkWallCollision x z g"
    unfolding checkWallCollision_def Let_def scan_cz_iff
    by (intro exI [of _ cz] exI [of _ cx]) simp
qed

lemma cell_centre_clear:
  assumes "cell_at g px pz \<noteq> Some WALL"
  shows "\<not> checkWallCollision (real_of_int px) (real_of_int pz) g"
proof
  assume "checkWallCollision (real_of_int px) (real_of_int pz) g"
  then obtain cx cz where h: "cell_at g cx cz = Some WALL"
    "\<bar>real_of_int px - real_of_int cx\<bar> < 1 / 2 + PLAYER_RADIUS"
    "\<bar>real_of_int pz - real_of_int cz\<bar> < 1 / 2 + PLAYER_RADIUS"
    unfolding checkWallCollision_iff by blast
  from h(2) have "\<bar>real_of_int (px - cx)\<bar> < 1" by (simp add: PLAYER_RADIUS_def)
  then have "px = cx" by linarith
  moreover from h(3) have "\<bar>real_of_int (pz - cz)\<bar> < 1" by (simp add: PLAYER_RADIUS_def)
  then have "pz = cz" by linarith
  ultimately show False using h(1) assms by simp
qed





section \<open>Hits, invulnerability and the area-clear ability\<close>

lemma handleHit_fields:
  "invulnerable (handleHit s)" "lives (handleHit s) = lives s - 1"
  "timeouts (handleHit s) = timeouts s @ [1500]"
  "phase (handleHit s) = (if lives s - 1 \<le> 0 then GAME_OVER else phase s)"
  "obstacles (handleHit s) = obstacles s" "isPaused (handleHit s) = isPaused s"
  "pulveriseCooldown (handleHit s) = pulveriseCooldown s"
  "playerPos (handleHit s) = playerPos s"
  by (simp_all add: handleHit_def Let_def)

lemma obstacle_step_snd:
  "snd (obstacle_step t pp obs acc) =
     (if in_contact t pp obs \<and> \<not> invulnerable (snd acc) then handleHit (snd acc) else snd acc)"
  by (simp add: obstacle_step_def in_contact_def Let_def)

lemma fold_obstacle_invulnerable:
  "invulnerable (snd acc) \<Longrightarrow> snd (fold (obstacle_step t pp) obs acc) = snd acc"
  by (induction obs arbitrary: acc) (simp_all add: obstacle_step_snd)

lemma fold_obstacle_no_contact:
  "\<forall>obs \<in> set obs. \<not> in_contact t pp obs \<Longrightarrow>
     snd (fold (obstacle_step t pp) obs acc) = snd acc"
  by (induction obs arbitrary: acc) (simp_all add: obstacle_step_snd)

lemma fold_obstacle_contact:
  "\<not> invulnerable (snd acc) \<Longrightarrow> \<exists>obs \<in> set obs. in_contact t pp obs \<Longrightarrow>
     snd (fold (obstacle_step t pp) obs acc) = handleHit (snd acc)"
proof (induction obs arbitrary: acc)
  case Nil
  then show ?case by simp
next
  case (Cons a obs)
  show ?case
  proof (cases "in_contact t pp a")
    case True
    with Cons.prems(1) have "snd (obstacle_step t pp a acc) = handleHit (snd acc)"
      by (simp add: obstacle_step_snd)
    moreover have "invulnerable (snd (obstacle_step t pp a acc))"
      using calculation by (simp add: handleHit_fields)
    ultimately show ?thesis
      using fold_obstacle_invulnerable [of "obstacle_step t pp a acc" t pp obs] by simp
  next
    case False
    then have s: "snd (obstacle_step t pp a acc) = snd acc"
      by (simp add: obstacle_step_snd)
    from False Cons.prems(2) have "\<exists>obs \<in> set obs. in_contact t pp obs" by auto
    with Cons.IH [of "obstacle_step t pp a acc"] Cons.prems(1) s show ?thesis by simp
  qed
qed

lemma update_invulnerable:
  assumes "invulnerable s"
  shows "lives (update t s) = lives s" "invulnerable (update t s)"
    "timeouts (update t s) = timeouts s"
  using assms fold_obstacle_invulnerable [of "(False, s)" t "playerPos s" "obstacles s"]
  by (simp_all add: update_def Let_def)

lemma update_hit:
  assumes "phase s = PLAYING" "\<not> isPaused s" "\<not> invulnerable s"
    and "\<exists>obs \<in> set (obstacles s). in_contact t (playerPos s) obs"
  shows "update t s = (handleHit s)\<lparr>canPulverise :=
      (fst (fold (obstacle_step t (playerPos s)) (obstacles s) (False, s)) \<and> pulveriseCooldown s = 0)\<rparr>"
  using assms fold_obstacle_contact [of "(False, s)" "obstacles s" t "playerPos s"]
  by (simp add: update_def Let_def)

lemma handlePulverise_keeps:
  "lives (handlePulverise t s) = lives s" "invulnerable (handlePulverise t s) = invulnerable s"
  "timeouts (handlePulverise t s) = timeouts s"
  by (simp_all add: handlePulverise_def)

lemma cooldown_second_keeps:
  "lives (cooldown_second s) = lives s" "invulnerable (cooldown_second s) = invulnerable s"
  "timeouts (cooldown_second s) = timeouts s"
  by (simp_all add: cooldown_second_def)





lemma timers_consistent_event:
  assumes "timers_consistent s"
  shows "timers_consistent (apply_event e s)"
proof (cases e)
  case (Frame t)
  show ?thesis
  proof (cases "invulnerable s")
    case True
    with assms update_invulnerable [of s t] Frame show ?thesis
      by (simp add: timers_consistent_def)
  next
    case False
    with assms have t0: "timeouts s = []" by (simp add: timers_consistent_def)
    show ?thesis
    proof (cases "phase s = PLAYING \<and> \<not> isPaused s \<and>
        (\<exists>obs \<in> set (obstacles s). in_contact t (playerPos s) obs)")
      case True
      with False update_hit [of s t] t0 Frame show ?thesis
        by (simp add: timers_consistent_def handleHit_fields)
    next
      case False
      then have "phase s \<noteq> PLAYING \<or> isPaused s \<or>
        (\<forall>obs \<in> set (obstacles s). \<not> in_contact t (playerPos s) obs)" by blast
      then show ?thesis
        using fold_obstacle_no_contact [of "obstacles s" t "playerPos s" "(False, s)"]
          assms Frame
        by (auto simp: update_def Let_def timers_consistent_def)
    qed
  qed
next
  case (Elapse ms)
  with assms show ?thesis
    by (auto simp: elapse_def timers_consistent_def split: list.splits if_splits)
next
  case CooldownSecond
  with assms show ?thesis by (simp add: timers_consistent_def cooldown_second_keeps)
next
  case (Pulverise t)
  with assms show ?thesis by (simp add: timers_consistent_def handlePulverise_keeps)
next
  case (MovePlayer p)
  with assms show ?thesis by (simp add: timers_consistent_def)
next
  case (SetPaused b)
  with assms show ?thesis by (simp add: timers_consistent_def)
next
  case ExtraLife
  with assms show ?thesis by (simp add: timers_consistent_def)
next
  case (SetPhase p)
  with assms show ?thesis by (simp add: timers_consistent_def)
qed

lemma timers_consistent_run: "timers_consistent s \<Longrightarrow> timers_consistent (run es s)"
  unfolding run_def by (induction es arbitrary: s) (simp_all add: timers_consistent_event)

lemma timers_consistent_reachable: "timers_consistent (run es initial_game)"
  by (rule timers_consistent_run) (simp add: timers_consistent_def initial_game_def)











section \<open>Sampling empty spots\<close>

lemma spots_loop_no_path_aux:
  assumes returns: "spots_loop rnd g count ex k spots = Some y"
  shows "(\<forall>x z. cell_at g x z \<noteq> Some PATH) \<longrightarrow> \<not> int (length spots) < count"
proof (rule spots_loop.raw_induct [where P = "\<lambda>rnd g count ex k spots y.
    (\<forall>x z. cell_at g x z \<noteq> Some PATH) \<longrightarrow> \<not> int (length spots) < count", OF _ returns])
  fix loop rnd g count ex and k :: nat and spots y
  assume 1: "\<And>rnd g count ex k spots y. loop rnd g count ex k spots = Some y \<Longrightarrow>
      (\<forall>x z. cell_at g x z \<noteq> Some PATH) \<longrightarrow> \<not> int (length spots) < count"
    "(if int (length spots) < count \<and> attempts < 1000
      then case (rand_below (rnd k) (length (g ! 0)), rand_below (rnd (k + 1)) (length g)) of
        (x, z) \<Rightarrow>
          if cell_at g x z = Some PATH
          then if ex \<and> x < 4 \<and> z < 4 then loop rnd g count ex (k + 2) spots
               else if \<not> list_ex (\<lambda>s. fst s = x \<and> snd s = z) spots
                    then loop rnd g count ex (k + 2) (spots @ [(x, z)])
                    else loop rnd g count ex (k + 2) spots
          else loop rnd g count ex (k + 2) spots
      else Some spots) = Some y"
  show "(\<forall>x z. cell_at g x z \<noteq> Some PATH) \<longrightarrow> \<not> int (length spots) < count"
  proof (intro impI notI)
    assume np: "\<forall>x z. cell_at g x z \<noteq> Some PATH" and lt: "int (length spots) < count"
    with 1(2) have "loop rnd g count ex (k + 2) spots = Some y"
      by (simp add: attempts_def split: prod.splits)
    from 1(1) [OF this] np lt show False by simp
  qed
qed

lemma spots_loop_no_path:
  assumes "spots_loop rnd g count ex k spots = Some y"
    and "\<forall>x z. cell_at g x z \<noteq> Some PATH"
  shows "\<not> int (length spots) < count"
  using spots_loop_no_path_aux [OF assms(1)] assms(2) by blast



text \<open>
  Claim C2 says that the loop stops after at most 1000 attempts and then returns fewer
  spots than asked.  The counter \<open>attempts\<close> is a constant 0, so \<open>attempts < 1000\<close> never
  ends the loop: on a grid without a PATH cell, asked for one spot, the function does not
  return, whatever the draws.
\<close>

theorem findEmptySpots_no_attempt_bound:
  "findEmptySpots rnd wall_grid 1 ex = None"
proof -
  have np: "\<forall>x z. cell_at wall_grid x z \<noteq> Some PATH"
  proof (intro allI)
    fix x z :: int
    show "cell_at wall_grid x z \<noteq> Some PATH"
    proof (cases "0 \<le> z \<and> z < 2 \<and> 0 \<le> x \<and> x < 2")
      case True
      then have "(z = 0 \<or> z = 1) \<and> (x = 0 \<or> x = 1)" by auto
      then show ?thesis by (auto simp: cell_at_def wall_grid_def)
    next
      case False
      then show ?thesis by (auto simp: cell_at_def wall_grid_def nth_Cons split: nat.splits)
    qed
  qed
  have "spots_loop rnd wall_grid 1 ex 0 [] = None"
  proof (cases "spots_loop rnd wall_grid 1 ex 0 []")
    case (Some y)
    from spots_loop_no_path [OF Some np] show ?thesis by simp
  qed simp
  then show ?thesis by (simp add: findEmptySpots_def wall_grid_def)
qed




section \<open>Breadth-first search\<close>

lemma distinct_neighbors: "distinct (neighbors p)"
  by (simp add: neighbors_def)

lemma fold_visit:
  "distinct ns \<Longrightarrow>
     fold (visit g path) ns (vis, q) =
       (vis \<union> set (filter (\<lambda>n. walkable g n \<and> n \<notin> vis) ns),
        q @ map (\<lambda>n. (n, path @ [n])) (filter (\<lambda>n. walkable g n \<and> n \<notin> vis) ns))"
proof (induction ns arbitrary: vis q)
  case Nil
  show ?case by simp
next
  case (Cons n ns)
  from Cons.prems have d: "distinct ns" and nn: "n \<notin> set ns" by simp_all
  show ?case
  proof (cases "walkable g n \<and> n \<notin> vis")
    case False
    then have "visit g path n (vis, q) = (vis, q)" by (auto simp: visit_def)
    with False Cons.IH [OF d, of vis q] show ?thesis by auto
  next
    case True
    then have v: "visit g path n (vis, q) = (insert n vis, q @ [(n, path @ [n])])"
      by (simp add: visit_def)
    have f: "filter (\<lambda>m. walkable g m \<and> m \<notin> insert n vis) ns =
             filter (\<lambda>m. walkable g m \<and> m \<notin> vis) ns"
      using nn by (intro filter_cong) auto
    from True v f Cons.IH [OF d, of "insert n vis" "q @ [(n, path @ [n])]"]
    show ?thesis by simp
  qed
qed

lemma route_single: "route g s s [s]"
  by (simp add: route_def)

lemma route_length: "route g s v r \<Longrightarrow> 1 \<le> length r"
  by (cases r) (simp_all add: route_def)

lemma route_snoc:
  "route g s v r \<Longrightarrow> step g v n \<Longrightarrow> route g s n (r @ [n])"
  by (auto simp: route_def successively_append_iff)

lemma route_cases:
  assumes "route g s v r"
  shows "(r = [s] \<and> v = s) \<or>
         (\<exists>r' u. r = r' @ [v] \<and> route g s u r' \<and> step g u v)"
proof (cases r rule: rev_cases)
  case Nil
  with assms show ?thesis by (simp add: route_def)
next
  case (snoc r' x)
  with assms have x: "x = v" by (simp add: route_def)
  show ?thesis
  proof (cases "r' = []")
    case True
    with snoc x assms show ?thesis by (simp add: route_def)
  next
    case False
    with snoc x assms have "route g s (last r') r'" "step g (last r') v"
      by (auto simp: route_def successively_append_iff)
    with snoc x show ?thesis by blast
  qed
qed

lemma processed_closed:
  assumes inv: "bfs_inv g s e vis q"
  shows "route g s u r \<Longrightarrow> \<forall>x \<in> set q. length r < length (snd x) \<Longrightarrow>
         u \<in> vis - fst ` set q"
proof (induction r arbitrary: u rule: rev_induct)
  case Nil
  then show ?case by (simp add: route_def)
next
  case (snoc a r')
  have notq: "u \<notin> fst ` set q" if "u \<in> vis"
  proof
    assume "u \<in> fst ` set q"
    then obtain x where x: "x \<in> set q" "fst x = u" by auto
    with inv snoc.prems(1) have "length (snd x) \<le> length (r' @ [a])"
      unfolding bfs_inv_def by blast
    with snoc.prems(2) x show False by force
  qed
  from route_cases [OF snoc.prems(1)] show ?case
  proof
    assume "r' @ [a] = [s] \<and> u = s"
    then have "u = s" by simp
    with inv have "u \<in> vis" by (simp add: bfs_inv_def)
    with notq show ?thesis by simp
  next
    assume "\<exists>r'' w. r' @ [a] = r'' @ [u] \<and> route g s w r'' \<and> step g w u"
    then obtain w where w: "route g s w r'" "step g w u" by auto
    from snoc.prems(2) have "\<forall>x \<in> set q. length r' < length (snd x)" by auto
    from snoc.IH [OF w(1) this] have "w \<in> vis - fst ` set q" .
    with inv w(2) have "u \<in> vis" unfolding bfs_inv_def by blast
    with notq show ?thesis by simp
  qed
qed

lemma bfs_inv_init: "bfs_inv g s e {s} [(s, [s])]"
  by (auto simp: bfs_inv_def route_single dest: route_length)

lemma bfs_inv_step:
  assumes inv: "bfs_inv g s e vis ((p, path) # rest)" and pe: "p \<noteq> e"
  defines "new \<equiv> filter (\<lambda>n. walkable g n \<and> n \<notin> vis) (neighbors p)"
  shows "bfs_inv g s e (vis \<union> set new) (rest @ map (\<lambda>n. (n, path @ [n])) new)"
proof -
  let ?mk = "\<lambda>n. (n, path @ [n])"
  let ?q = "(p, path) # rest"
  let ?q' = "rest @ map ?mk new"
  let ?vis' = "vis \<union> set new"
  have fst_new: "map fst (map ?mk new) = new" by (simp add: comp_def)
  have new_iff: "n \<in> set new \<longleftrightarrow> n \<in> set (neighbors p) \<and> walkable g n \<and> n \<notin> vis" for n
    by (auto simp: new_def)
  have fstq': "fst ` set ?q' = fst ` set rest \<union> set new" by (auto simp: image_Un image_image)
  from inv have s_in: "s \<in> vis"
    and dq: "distinct (map fst ?q)" and sub: "fst ` set ?q \<subseteq> vis"
    and ent: "\<forall>x \<in> set ?q. route g s (fst x) (snd x) \<and>
         (\<forall>r. route g s (fst x) r \<longrightarrow> length (snd x) \<le> length r)"
    and clo: "\<forall>v \<in> vis - fst ` set ?q. v \<noteq> e \<and> (\<forall>n. step g v n \<longrightarrow> n \<in> vis)"
    and srt: "sorted (map (\<lambda>x. length (snd x)) ?q)"
    and win: "\<forall>x \<in> set ?q. length (snd x) \<le> length (snd (hd ?q)) + 1"
    unfolding bfs_inv_def by blast+
  from ent have rp: "route g s p path" by simp
  from srt have lo: "\<forall>x \<in> set rest. length path \<le> length (snd x)" by auto
  from win have hi: "\<forall>x \<in> set rest. length (snd x) \<le> length path + 1" by auto
  have a: "s \<in> ?vis'" using s_in by simp
  have b1: "distinct (map fst ?q')"
  proof -
    have "distinct new" by (simp add: new_def distinct_neighbors)
    moreover have "set (map fst rest) \<inter> set new = {}" using sub new_iff by auto
    moreover have "distinct (map fst rest)" using dq by simp
    ultimately show ?thesis by (simp add: comp_def)
  qed
  have b2: "fst ` set ?q' \<subseteq> ?vis'" using sub fstq' by auto
  have c: "\<forall>x \<in> set ?q'. route g s (fst x) (snd x) \<and>
         (\<forall>r. route g s (fst x) r \<longrightarrow> length (snd x) \<le> length r)"
  proof
    fix x assume "x \<in> set ?q'"
    then consider "x \<in> set rest" | n where "n \<in> set new" "x = ?mk n" by auto
    then show "route g s (fst x) (snd x) \<and>
         (\<forall>r. route g s (fst x) r \<longrightarrow> length (snd x) \<le> length r)"
    proof cases
      case 1
      with ent show ?thesis by simp
    next
      case 2
      from 2(1) have n: "n \<in> set (neighbors p)" "walkable g n" "n \<notin> vis"
        by (simp_all add: new_iff)
      then have st: "step g p n" by (simp add: step_def)
      have r1: "route g s n (path @ [n])" using route_snoc [OF rp st] .
      have r2: "length (path @ [n]) \<le> length r" if r: "route g s n r" for r
      proof (rule ccontr)
        assume "\<not> length (path @ [n]) \<le> length r"
        then have short: "length r \<le> length path" by simp
        from route_cases [OF r] show False
        proof
          assume "r = [s] \<and> n = s"
          with s_in n(3) show False by simp
        next
          assume "\<exists>r' u. r = r' @ [n] \<and> route g s u r' \<and> step g u n"
          then obtain r' u where u: "r = r' @ [n]" "route g s u r'" "step g u n" by blast
          from u(1) short have "length r' < length path" by simp
          with lo have "\<forall>x \<in> set ?q. length r' < length (snd x)" by auto
          from processed_closed [OF inv u(2) this] have "u \<in> vis - fst ` set ?q" .
          with clo u(3) have "n \<in> vis" by blast
          with n(3) show False by simp
        qed
      qed
      from 2(2) r1 r2 show ?thesis by simp
    qed
  qed
  have d: "\<forall>v \<in> ?vis' - fst ` set ?q'. v \<noteq> e \<and> (\<forall>n. step g v n \<longrightarrow> n \<in> ?vis')"
  proof
    fix v assume "v \<in> ?vis' - fst ` set ?q'"
    then have v: "v \<in> vis" "v \<notin> fst ` set rest" "v \<notin> set new" using fstq' by auto
    show "v \<noteq> e \<and> (\<forall>n. step g v n \<longrightarrow> n \<in> ?vis')"
    proof (cases "v = p")
      case True
      have "n \<in> ?vis'" if "step g p n" for n
        using that new_iff [of n] by (auto simp: step_def)
      with True pe show ?thesis by simp
    next
      case False
      with v have "v \<in> vis - fst ` set ?q" by auto
      with clo show ?thesis by blast
    qed
  qed
  have e1: "sorted (map (\<lambda>x. length (snd x)) ?q')"
  proof -
    have "sorted (map (\<lambda>x. length (snd x)) rest)" using srt by simp
    moreover have "sorted (map (\<lambda>x. length (snd x)) (map ?mk new))"
      by (simp add: comp_def sorted_wrt_iff_nth_less flip: replicate_length_same)
    ultimately show ?thesis using hi by (auto simp: sorted_append)
  qed
  have f: "\<forall>x \<in> set ?q'. length (snd x) \<le> length (snd (hd ?q')) + 1"
  proof (cases rest)
    case Nil
    then show ?thesis by (cases new) auto
  next
    case (Cons y ys)
    then have "length path \<le> length (snd (hd ?q'))" using lo by simp
    with hi show ?thesis by auto
  qed
  from a b1 b2 c d e1 f show ?thesis unfolding bfs_inv_def by blast
qed

lemma bfs_loop_correct:
  "bfs_inv g s e vis q \<Longrightarrow>
     (bfs_loop g e vis q = [] \<and> (\<forall>r. \<not> route g s e r)) \<or>
     (route g s e (bfs_loop g e vis q) \<and>
      (\<forall>r. route g s e r \<longrightarrow> length (bfs_loop g e vis q) \<le> length r))"
proof (induction g e vis q rule: bfs_loop.induct)
  case (1 g e visited)
  have "\<not> route g s e r" for r
  proof
    assume "route g s e r"
    from processed_closed [OF "1.prems" this] have "e \<in> visited - fst ` set []" by simp
    with "1.prems" show False unfolding bfs_inv_def by blast
  qed
  then show ?case by simp
next
  case (2 g e visited pos path queue)
  show ?case
  proof (cases "pos = e")
    case True
    with "2.prems" show ?thesis unfolding bfs_inv_def by simp
  next
    case False
    let ?new = "filter (\<lambda>n. walkable g n \<and> n \<notin> visited) (neighbors pos)"
    let ?vis' = "visited \<union> set ?new"
    let ?q' = "queue @ map (\<lambda>n. (n, path @ [n])) ?new"
    have fv: "fold (visit g path) (neighbors pos) (visited, queue) = (?vis', ?q')"
      by (rule fold_visit [OF distinct_neighbors])
    have inv': "bfs_inv g s e ?vis' ?q'" by (rule bfs_inv_step [OF "2.prems" False])
    from "2.IH" [OF False fv [symmetric] inv'] False fv show ?thesis by simp
  qed
qed

lemma successively_nth:
  "successively P p \<Longrightarrow> Suc i < length p \<Longrightarrow> P (p ! i) (p ! Suc i)"
proof (induction p arbitrary: i)
  case Nil
  then show ?case by simp
next
  case (Cons x xs)
  show ?case
  proof (cases i)
    case 0
    with Cons.prems show ?thesis by (cases xs) simp_all
  next
    case (Suc j)
    from Cons.prems have "successively P xs" by (cases xs) simp_all
    with Cons.IH [of j] Cons.prems(2) Suc show ?thesis by simp
  qed
qed

lemma step_unit_apart: "step g a b \<Longrightarrow> unit_apart a b"
  by (auto simp: step_def neighbors_def unit_apart_def)

lemma successively_tl_walkable:
  "successively (step g) p \<Longrightarrow> c \<in> set (tl p) \<Longrightarrow> walkable g c"
proof (induction p)
  case Nil
  then show ?case by simp
next
  case (Cons x xs)
  show ?case
  proof (cases xs)
    case Nil
    with Cons.prems show ?thesis by simp
  next
    case (Cons y ys)
    with Cons.prems(1) have "step g x y" "successively (step g) xs" by simp_all
    with Cons.IH Cons.prems(2) Cons show ?thesis by (auto simp: step_def)
  qed
qed

lemma route_to_other_walkable:
  assumes "route g s e r" and "s \<noteq> e"
  shows "walkable g e"
  using route_cases [OF assms(1)] assms(2) by (auto simp: step_def)

lemma findShortestPath_correct:
  fixes start "end" :: Position
  defines "s \<equiv> (\<lfloor>fst start\<rfloor>, \<lfloor>snd start\<rfloor>)" and "e \<equiv> (\<lfloor>fst end\<rfloor>, \<lfloor>snd end\<rfloor>)"
  shows "(findShortestPath g start end = [] \<and> (\<forall>r. \<not> route g s e r)) \<or>
     (route g s e (findShortestPath g start end) \<and>
      (\<forall>r. route g s e r \<longrightarrow> length (findShortestPath g start end) \<le> length r))"
  using bfs_loop_correct [OF bfs_inv_init [of g s e]]
  by (simp add: findShortestPath_def Let_def s_def e_def)

text \<open>
  Claim C3 as stated fails where the start cell is a wall: the search never looks at the
  start cell, so the result begins on a WALL cell, and a search from a WALL cell to itself
  returns that cell although no route through non-WALL cells exists.
\<close>

theorem findShortestPath_wall_start:
  "cell_at corridor_grid 0 1 = Some WALL \<and>
   findShortestPath corridor_grid (0, 1) (2, 1) = [(0, 1), (1, 1), (2, 1)] \<and>
   cell_at corridor_grid 0 0 = Some WALL \<and>
   findShortestPath corridor_grid (0, 0) (0, 0) = [(0, 0)]"
  by (simp add: findShortestPath_def Let_def visit_def neighbors_def walkable_def
      in_bounds_def cell_at_def corridor_grid_def)

text \<open>
  Claim C3, amended.  \<open>findShortestPath\<close> floors start and end to cells and never inspects
  the start cell.  Call a route a sequence of cells from the start cell to the end cell in
  which each cell after the first is one of the four neighbours of the one before, is in
  bounds and is not WALL.  The result is empty exactly when there is no route; otherwise it
  is a route, starting at the floored start and ending at the floored end, consecutive
  cells differ by one unit in one axis, and no route has fewer cells.
\<close>

theorem findShortestPath_shortest:
  "(findShortestPath g (sx, sz) (ex, ez) = [] \<longleftrightarrow>
      (\<forall>r. \<not> route g (\<lfloor>sx\<rfloor>, \<lfloor>sz\<rfloor>) (\<lfloor>ex\<rfloor>, \<lfloor>ez\<rfloor>) r)) \<and>
   (findShortestPath g (sx, sz) (ex, ez) \<noteq> [] \<longrightarrow>
      hd (findShortestPath g (sx, sz) (ex, ez)) = (\<lfloor>sx\<rfloor>, \<lfloor>sz\<rfloor>) \<and>
      last (findShortestPath g (sx, sz) (ex, ez)) = (\<lfloor>ex\<rfloor>, \<lfloor>ez\<rfloor>) \<and>
      (\<forall>i. Suc i < length (findShortestPath g (sx, sz) (ex, ez)) \<longrightarrow>
         unit_apart (findShortestPath g (sx, sz) (ex, ez) ! i)
           (findShortestPath g (sx, sz) (ex, ez) ! Suc i)) \<and>
      (\<forall>c \<in> set (tl (findShortestPath g (sx, sz) (ex, ez))).
         in_bounds g (fst c) (snd c) \<and> cell_at g (fst c) (snd c) \<noteq> Some WALL) \<and>
      (\<forall>r. route g (\<lfloor>sx\<rfloor>, \<lfloor>sz\<rfloor>) (\<lfloor>ex\<rfloor>, \<lfloor>ez\<rfloor>) r \<longrightarrow>
         length (findShortestPath g (sx, sz) (ex, ez)) \<le> length r))"
proof -
  let ?res = "findShortestPath g (sx, sz) (ex, ez)"
  let ?s = "(\<lfloor>sx\<rfloor>, \<lfloor>sz\<rfloor>)" and ?e = "(\<lfloor>ex\<rfloor>, \<lfloor>ez\<rfloor>)"
  from findShortestPath_correct [of g "(sx, sz)" "(ex, ez)"]
  have c: "(?res = [] \<and> (\<forall>r. \<not> route g ?s ?e r)) \<or>
     (route g ?s ?e ?res \<and> (\<forall>r. route g ?s ?e r \<longrightarrow> length ?res \<le> length r))"
    by simp
  have a: "?res = [] \<longleftrightarrow> (\<forall>r. \<not> route g ?s ?e r)"
    using c by (auto simp: route_def)
  have b: "hd ?res = ?s \<and> last ?res = ?e \<and>
      (\<forall>i. Suc i < length ?res \<longrightarrow> unit_apart (?res ! i) (?res ! Suc i)) \<and>
      (\<forall>c \<in> set (tl ?res). in_bounds g (fst c) (snd c) \<and> cell_at g (fst c) (snd c) \<noteq> Some WALL) \<and>
      (\<forall>r. route g ?s ?e r \<longrightarrow> length ?res \<le> length r)" if ne: "?res \<noteq> []"
  proof -
    from c ne have r: "route g ?s ?e ?res"
      and m: "\<forall>r. route g ?s ?e r \<longrightarrow> length ?res \<le> length r" by blast+
    from r have su: "successively (step g) ?res" by (simp add: route_def)
    have u: "\<forall>i. Suc i < length ?res \<longrightarrow> unit_apart (?res ! i) (?res ! Suc i)"
      using successively_nth [OF su] step_unit_apart by blast
    have w: "\<forall>c \<in> set (tl ?res). in_bounds g (fst c) (snd c) \<and> cell_at g (fst c) (snd c) \<noteq> Some WALL"
      using successively_tl_walkable [OF su] by (auto simp: walkable_def)
    from r u w m show ?thesis by (simp add: route_def)
  qed
  from a b show ?thesis by blast
qed

theorem findShortestPath_shortest_witness:
  "route corridor_grid (1, 1) (2, 1) [(1, 1), (2, 1)] \<and>
   findShortestPath corridor_grid (3 / 2, 6 / 5) (27 / 10, 19 / 10) = [(1, 1), (2, 1)] \<and>
   length (findShortestPath corridor_grid (3 / 2, 6 / 5) (27 / 10, 19 / 10)) \<le> 2 \<and>
   unit_apart (1, 1) (2, 1) \<and>
   findShortestPath corridor_grid (1, 1) (0, 0) = []"
proof -
  have rt: "route corridor_grid (1, 1) (2, 1) [(1, 1), (2, 1)]"
    by (simp add: route_def step_def neighbors_def walkable_def in_bounds_def cell_at_def
        corridor_grid_def)
  have ev: "findShortestPath corridor_grid (3 / 2, 6 / 5) (27 / 10, 19 / 10) = [(1, 1), (2, 1)]"
    by (simp add: findShortestPath_def Let_def visit_def neighbors_def walkable_def
      in_bounds_def cell_at_def corridor_grid_def)
  note inst = findShortestPath_shortest [of corridor_grid "3 / 2" "6 / 5" "27 / 10" "19 / 10"]
  have fl: "\<lfloor>3 / 2 :: real\<rfloor> = 1" "\<lfloor>6 / 5 :: real\<rfloor> = 1" "\<lfloor>27 / 10 :: real\<rfloor> = 2"
    "\<lfloor>19 / 10 :: real\<rfloor> = 1" by simp_all
  from inst rt have ne: "findShortestPath corridor_grid (3 / 2, 6 / 5) (27 / 10, 19 / 10) \<noteq> []"
    unfolding fl by blast
  with inst rt have le: "length (findShortestPath corridor_grid (3 / 2, 6 / 5) (27 / 10, 19 / 10))
      \<le> length [(1, 1), (2, 1) :: cell]"
    unfolding fl by blast
  from inst ne have "unit_apart
      (findShortestPath corridor_grid (3 / 2, 6 / 5) (27 / 10, 19 / 10) ! 0)
      (findShortestPath corridor_grid (3 / 2, 6 / 5) (27 / 10, 19 / 10) ! Suc 0)"
    using ev by simp
  then have ua: "unit_apart (1, 1) (2, 1)" by (simp add: ev)
  have no: "\<forall>r. \<not> route corridor_grid (\<lfloor>1 :: real\<rfloor>, \<lfloor>1 :: real\<rfloor>) (\<lfloor>0 :: real\<rfloor>, \<lfloor>0 :: real\<rfloor>) r"
  proof (intro allI notI)
    fix r assume "route corridor_grid (\<lfloor>1 :: real\<rfloor>, \<lfloor>1 :: real\<rfloor>) (\<lfloor>0 :: real\<rfloor>, \<lfloor>0 :: real\<rfloor>) r"
    then have "walkable corridor_grid (0, 0)"
      using route_to_other_walkable [of corridor_grid "(1, 1)" "(0, 0)" r] by simp
    then show False by (simp add: walkable_def cell_at_def corridor_grid_def)
  qed
  from findShortestPath_shortest [of corridor_grid 1 1 0 0] no
  have em: "findShortestPath corridor_grid (1, 1) (0, 0) = []" by blast
  from rt ev le ua em show ?thesis by simp
qed

text \<open>
  Claim C10.  When the floored start and end cells coincide, the result is that single
  cell, on every grid: also when the cell is a wall or lies outside the grid.
\<close>

theorem findShortestPath_same_cell:
  "\<lfloor>fst start\<rfloor> = \<lfloor>fst end\<rfloor> \<and> \<lfloor>snd start\<rfloor> = \<lfloor>snd end\<rfloor> \<longrightarrow>
     findShortestPath g start end = [(\<lfloor>fst start\<rfloor>, \<lfloor>snd start\<rfloor>)]"
  by (simp add: findShortestPath_def Let_def)

theorem findShortestPath_same_cell_witness:
  "cell_at corridor_grid 0 0 = Some WALL \<and>
   findShortestPath corridor_grid (1 / 5, 7 / 10) (9 / 10, 1 / 10) = [(0, 0)] \<and>
   \<not> in_bounds corridor_grid (- 4) (- 3) \<and>
   findShortestPath corridor_grid (- (7 / 2), - (5 / 2)) (- (31 / 10), - (29 / 10)) = [(- 4, - 3)]"
proof -
  have a: "cell_at corridor_grid 0 0 = Some WALL" "\<not> in_bounds corridor_grid (- 4) (- 3)"
    by (simp_all add: cell_at_def in_bounds_def corridor_grid_def)
  from findShortestPath_same_cell [of "(1 / 5, 7 / 10)" "(9 / 10, 1 / 10)" corridor_grid]
  have b: "findShortestPath corridor_grid (1 / 5, 7 / 10) (9 / 10, 1 / 10) = [(0, 0)]" by simp
  from findShortestPath_same_cell [of "(- (7 / 2), - (5 / 2))" "(- (31 / 10), - (29 / 10))"
      corridor_grid]
  have c: "findShortestPath corridor_grid (- (7 / 2), - (5 / 2)) (- (31 / 10), - (29 / 10)) =
      [(- 4, - 3)]" by simp
  from a b c show ?thesis by simp
qed

text \<open>
  Claim C8 says that out-of-bounds queries fail fast.  Neither function has a failing
  branch: each array read is guarded by the bounds test, and a query outside the grid gets
  an ordinary result.
\<close>

theorem out_of_bounds_not_rejected:
  "\<not> in_bounds corridor_grid (- 5) (- 5) \<and>
   \<not> checkWallCollision (- 5) (- 5) corridor_grid \<and>
   findShortestPath corridor_grid (- 5, - 5) (1, 1) = [] \<and>
   \<not> in_bounds corridor_grid 9 9 \<and>
   findShortestPath corridor_grid (1, 1) (9, 9) = []"
proof -
  have "\<not> checkWallCollision (- 5) (- 5) corridor_grid"
    by (simp add: checkWallCollision_def PLAYER_RADIUS_def Let_def)
       (simp add: scan_cz.simps scan_cx.simps wall_overlap_def PLAYER_RADIUS_def Let_def
          in_bounds_def cell_at_def corridor_grid_def)
  moreover have "findShortestPath corridor_grid (- 5, - 5) (1, 1) = []"
    "findShortestPath corridor_grid (1, 1) (9, 9) = []"
    by (simp_all add: findShortestPath_def Let_def visit_def neighbors_def walkable_def
      in_bounds_def cell_at_def corridor_grid_def)
  ultimately show ?thesis by (simp add: in_bounds_def corridor_grid_def)
qed

text \<open>
  Claim C8, amended.  Out-of-bounds queries are answered like any other:
  \<open>checkWallCollision\<close> skips the cells outside the grid, so it is false when no in-bounds
  cell overlaps the footprint; \<open>findShortestPath\<close> returns the empty sequence when the end
  cell is out of bounds and is not the start cell, and it never checks the start cell,
  which heads every non-empty result.
\<close>

theorem out_of_bounds_tolerated:
  "((\<forall>cx cz. in_bounds g cx cz \<longrightarrow>
       \<not> (\<bar>x - real_of_int cx\<bar> < 1 / 2 + PLAYER_RADIUS \<and>
          \<bar>z - real_of_int cz\<bar> < 1 / 2 + PLAYER_RADIUS)) \<longrightarrow>
      \<not> checkWallCollision x z g) \<and>
   (\<not> in_bounds g \<lfloor>fst end\<rfloor> \<lfloor>snd end\<rfloor> \<and>
    (\<lfloor>fst start\<rfloor>, \<lfloor>snd start\<rfloor>) \<noteq> (\<lfloor>fst end\<rfloor>, \<lfloor>snd end\<rfloor>) \<longrightarrow>
      findShortestPath g start end = []) \<and>
   (findShortestPath g start end \<noteq> [] \<longrightarrow>
      hd (findShortestPath g start end) = (\<lfloor>fst start\<rfloor>, \<lfloor>snd start\<rfloor>))"
proof (intro conjI impI)
  assume "\<forall>cx cz. in_bounds g cx cz \<longrightarrow>
       \<not> (\<bar>x - real_of_int cx\<bar> < 1 / 2 + PLAYER_RADIUS \<and>
          \<bar>z - real_of_int cz\<bar> < 1 / 2 + PLAYER_RADIUS)"
  then show "\<not> checkWallCollision x z g" unfolding checkWallCollision_iff by blast
next
  let ?s = "(\<lfloor>fst start\<rfloor>, \<lfloor>snd start\<rfloor>)" and ?e = "(\<lfloor>fst end\<rfloor>, \<lfloor>snd end\<rfloor>)"
  assume h: "\<not> in_bounds g \<lfloor>fst end\<rfloor> \<lfloor>snd end\<rfloor> \<and> ?s \<noteq> ?e"
  have "\<not> route g ?s ?e r" for r
  proof
    assume "route g ?s ?e r"
    from route_to_other_walkable [OF this] h show False by (simp add: walkable_def)
  qed
  with findShortestPath_correct [of g start "end"]
  show "findShortestPath g start end = []" by blast
next
  assume "findShortestPath g start end \<noteq> []"
  with findShortestPath_correct [of g start "end"]
  show "hd (findShortestPath g start end) = (\<lfloor>fst start\<rfloor>, \<lfloor>snd start\<rfloor>)"
    by (auto simp: route_def)
qed

theorem out_of_bounds_tolerated_witness:
  "\<not> checkWallCollision (- 5) (- 5) corridor_grid \<and>
   \<not> in_bounds corridor_grid 9 9 \<and>
   findShortestPath corridor_grid (1, 1) (9, 9) = [] \<and>
   findShortestPath corridor_grid (- 2, - 2) (- 2, - 2) \<noteq> [] \<and>
   hd (findShortestPath corridor_grid (- 2, - 2) (- 2, - 2)) = (- 2, - 2)"
proof -
  have far: "\<forall>cx cz. in_bounds corridor_grid cx cz \<longrightarrow>
       \<not> (\<bar>- 5 - real_of_int cx\<bar> < 1 / 2 + PLAYER_RADIUS \<and>
          \<bar>- 5 - real_of_int cz\<bar> < 1 / 2 + PLAYER_RADIUS)"
    by (auto simp: in_bounds_def PLAYER_RADIUS_def)
  from out_of_bounds_tolerated [of corridor_grid "- 5" "- 5"] far
  have a: "\<not> checkWallCollision (- 5) (- 5) corridor_grid" by blast
  have nb: "\<not> in_bounds corridor_grid 9 9" by (simp add: in_bounds_def corridor_grid_def)
  from out_of_bounds_tolerated [of corridor_grid _ _ "(9, 9)" "(1, 1)"] nb
  have b: "findShortestPath corridor_grid (1, 1) (9, 9) = []" by simp
  have ne: "findShortestPath corridor_grid (- 2, - 2) (- 2, - 2) \<noteq> []"
    by (simp add: findShortestPath_def Let_def)
  from out_of_bounds_tolerated [of corridor_grid _ _ "(- 2, - 2)" "(- 2, - 2)"] ne
  have c: "hd (findShortestPath corridor_grid (- 2, - 2) (- 2, - 2)) = (- 2, - 2)" by simp
  from a nb b ne c show ?thesis by blast
qed

section \<open>The generated maze is perfect\<close>


lemma adjacent_irrefl: "\<not> adjacent a a"
  by (simp add: adjacent_def)











lemma length_set_cell [simp]: "length (set_cell g x z v) = length g"
  by (simp add: set_cell_def)

lemma rect_set_cell:
  assumes "rect W H g"
  shows "rect W H (set_cell g x z v)"
proof -
  have "int (length row) = W" if "row \<in> set (set_cell g x z v)" for row
  proof -
    from that have "row \<in> insert ((g ! nat z)[nat x := v]) (set g)"
      unfolding set_cell_def using set_update_subset_insert by fastforce
    then show ?thesis
    proof
      assume "row = (g ! nat z)[nat x := v]"
      moreover from that have "nat z < length g \<or> row \<in> set g"
        unfolding set_cell_def by (cases "nat z < length g") (simp_all add: not_less list_update_beyond)
      ultimately show ?thesis using assms by (auto simp: rect_def)
    next
      assume "row \<in> set g"
      with assms show ?thesis by (simp add: rect_def)
    qed
  qed
  with assms show ?thesis by (simp add: rect_def)
qed

lemma cell_at_rect:
  "rect W H g \<Longrightarrow>
     cell_at g x z = (if 0 \<le> z \<and> z < H \<and> 0 \<le> x \<and> x < W then Some (g ! nat z ! nat x) else None)"
  unfolding rect_def cell_at_def by auto

lemma cell_at_set_cell:
  assumes "rect W H g" "0 \<le> x" "x < W" "0 \<le> z" "z < H"
  shows "cell_at (set_cell g x z v) x' z' =
           (if x' = x \<and> z' = z then Some v else cell_at g x' z')"
proof -
  note r' = rect_set_cell [OF assms(1), of x z v]
  show ?thesis
  proof (cases "0 \<le> z' \<and> z' < H \<and> 0 \<le> x' \<and> x' < W")
    case False
    with assms show ?thesis
      unfolding cell_at_rect [OF assms(1)] cell_at_rect [OF r'] by auto
  next
    case True
    from assms(1) have len: "int (length g) = H" by (simp add: rect_def)
    from assms(1,4,5) len have row: "int (length (g ! nat z)) = W"
      by (simp add: rect_def)
    have zz: "nat z' = nat z \<longleftrightarrow> z' = z" using True assms by auto
    have xx: "nat x' = nat x \<longleftrightarrow> x' = x" using True assms by auto
    from True len row assms zz xx show ?thesis
      unfolding cell_at_rect [OF assms(1)] cell_at_rect [OF r']
      by (auto simp: set_cell_def nth_list_update)
  qed
qed

lemma open_cells_set_cell:
  assumes "rect W H g" "0 \<le> x" "x < W" "0 \<le> z" "z < H" "v \<noteq> WALL"
  shows "open_cells (set_cell g x z v) = insert (x, z) (open_cells g)"
  using assms(6)
  by (auto simp: open_cells_def open_cell_def cell_at_set_cell [OF assms(1-5)]
      split: option.splits if_splits)

lemma rect_replicate:
  "0 \<le> W \<Longrightarrow> 0 \<le> H \<Longrightarrow> rect W H (replicate (nat H) (replicate (nat W) WALL))"
  by (simp add: rect_def)

lemma open_cells_replicate:
  "open_cells (replicate (nat H) (replicate (nat W) WALL)) = {}"
  by (auto simp: open_cells_def open_cell_def cell_at_def split: option.splits if_splits)

lemma adjacent_iff:
  "adjacent (a, b) (c, d) \<longleftrightarrow>
     (a = c + 1 \<and> b = d) \<or> (a = c - 1 \<and> b = d) \<or> (a = c \<and> b = d + 1) \<or> (a = c \<and> b = d - 1)"
  unfolding adjacent_def by auto

lemma layout_carved:
  "layout_ok W H Q C \<Longrightarrow> c \<in> C \<Longrightarrow>
     odd (fst c) \<and> odd (snd c) \<and> isInBounds W H (fst c) (snd c) \<and> c \<in> Q"
  unfolding layout_ok_def by blast

lemma layout_opened:
  "layout_ok W H Q C \<Longrightarrow> (a, b) \<in> Q \<Longrightarrow>
     (if odd a then (if odd b then (a, b) \<in> C else (a, b - 1) \<in> C \<and> (a, b + 1) \<in> C)
      else odd b \<and> (a - 1, b) \<in> C \<and> (a + 1, b) \<in> C)"
  unfolding layout_ok_def by fastforce

lemma direction_cases:
  "(dx, dz) \<in> set directions \<Longrightarrow>
     (dx = 0 \<and> dz = - 2) \<or> (dx = 2 \<and> dz = 0) \<or> (dx = 0 \<and> dz = 2) \<or> (dx = - 2 \<and> dz = 0)"
  by (auto simp: directions_def)

lemma layout_step:
  assumes lay: "layout_ok W H Q C" and tr: "tree_set Q"
    and p: "(x, z) \<in> C" and d: "(dx, dz) \<in> set directions"
    and inb: "isInBounds W H (x + dx) (z + dz)" and nc: "(x + dx, z + dz) \<notin> C"
  shows "layout_ok W H (insert (x + dx, z + dz) (insert (x + dx div 2, z + dz div 2) Q))
           (insert (x + dx, z + dz) C) \<and>
         tree_set (insert (x + dx, z + dz) (insert (x + dx div 2, z + dz div 2) Q))"
proof -
  let ?m = "(x + dx div 2, z + dz div 2)" and ?r = "(x + dx, z + dz)"
  note dc = direction_cases [OF d]
  from layout_carved [OF lay p] have odd: "odd x" "odd z" and pO: "(x, z) \<in> Q" by simp_all
  have mO: "?m \<notin> Q"
  proof
    assume "?m \<in> Q"
    from layout_opened [OF lay this] dc odd nc show False by (auto simp: ac_simps)
  qed
  have rO: "?r \<notin> Q"
  proof
    assume "?r \<in> Q"
    from layout_opened [OF lay this] dc odd nc show False by (auto simp: ac_simps)
  qed
  have mr: "?r \<noteq> ?m" using dc by auto
  have m_nb: "\<forall>w \<in> Q. adjacent w ?m \<longrightarrow> w = (x, z)"
  proof (intro ballI impI)
    fix w assume w: "w \<in> Q" "adjacent w ?m"
    obtain a b where ab: "w = (a, b)" by (cases w)
    from layout_opened [OF lay w(1) [unfolded ab]] w(2) dc odd nc ab
    show "w = (x, z)" by (auto simp: adjacent_iff ac_simps)
  qed
  have r_nb: "\<forall>w \<in> insert ?m Q. adjacent w ?r \<longrightarrow> w = ?m"
  proof (intro ballI impI)
    fix w assume w: "w \<in> insert ?m Q" "adjacent w ?r"
    show "w = ?m"
    proof (cases "w = ?m")
      case False
      with w have wO: "w \<in> Q" by simp
      obtain a b where ab: "w = (a, b)" by (cases w)
      from layout_opened [OF lay wO [unfolded ab]] w(2) dc odd nc ab
      show ?thesis by (auto simp: adjacent_iff ac_simps)
    qed simp
  qed
  have a1: "adjacent (x, z) ?m" using dc by (auto simp: adjacent_iff)
  have a2: "adjacent ?m ?r" using dc by (auto simp: adjacent_iff)
  have t1: "tree_set (insert ?m Q)"
    by (rule tree_set.leaf [OF tr mO pO a1 m_nb])
  have t2: "tree_set (insert ?r (insert ?m Q))"
    by (rule tree_set.leaf [OF t1 _ _ a2 r_nb]) (use rO mr in auto)
  have l1: "\<forall>c \<in> insert ?r C. odd (fst c) \<and> odd (snd c) \<and> isInBounds W H (fst c) (snd c) \<and>
      c \<in> insert ?r (insert ?m Q)"
    using lay inb odd dc unfolding layout_ok_def by auto
  have l2: "\<forall>c \<in> insert ?r (insert ?m Q).
         if odd (fst c) then
            (if odd (snd c) then c \<in> insert ?r C
             else (fst c, snd c - 1) \<in> insert ?r C \<and> (fst c, snd c + 1) \<in> insert ?r C)
         else odd (snd c) \<and> (fst c - 1, snd c) \<in> insert ?r C \<and> (fst c + 1, snd c) \<in> insert ?r C"
  proof
    fix c assume "c \<in> insert ?r (insert ?m Q)"
    then consider "c = ?r" | "c = ?m" | "c \<in> Q" by blast
    then show "if odd (fst c) then
            (if odd (snd c) then c \<in> insert ?r C
             else (fst c, snd c - 1) \<in> insert ?r C \<and> (fst c, snd c + 1) \<in> insert ?r C)
         else odd (snd c) \<and> (fst c - 1, snd c) \<in> insert ?r C \<and> (fst c + 1, snd c) \<in> insert ?r C"
    proof cases
      case 1
      with odd dc show ?thesis by auto
    next
      case 2
      with odd dc p show ?thesis by auto
    next
      case 3
      obtain a b where ab: "c = (a, b)" by (cases c)
      from layout_opened [OF lay 3 [unfolded ab]] ab show ?thesis by auto
    qed
  qed
  from l1 l2 t2 show ?thesis unfolding layout_ok_def by blast
qed

lemma set_shuffle: "set (shuffle r xs) = set xs"
proof (induction xs arbitrary: r)
  case Nil
  show ?case by simp
next
  case (Cons x xs)
  let ?ys = "shuffle (r div Suc (length xs)) xs" and ?i = "r mod Suc (length xs)"
  have "set (take ?i ?ys @ x # drop ?i ?ys) = insert x (set (take ?i ?ys @ drop ?i ?ys))"
    by (simp only: set_append list.set Un_insert_right)
  also have "\<dots> = insert x (set xs)" by (simp only: append_take_drop_id Cons.IH)
  finally show ?case by (simp add: Let_def)
qed

lemma shuffle_any_order:
  "distinct xs \<Longrightarrow> distinct ys \<Longrightarrow> set ys = set xs \<Longrightarrow> \<exists>r. shuffle r xs = ys"
proof (induction xs arbitrary: ys)
  case Nil
  then show ?case by simp
next
  case (Cons x xs)
  from Cons.prems(3) have "x \<in> set ys" by simp
  then obtain as bs where ys: "ys = as @ x # bs" by (auto simp: in_set_conv_decomp)
  from Cons.prems(2) ys have d: "distinct (as @ bs)" and nx: "x \<notin> set (as @ bs)" by auto
  from Cons.prems(1) have nxs: "x \<notin> set xs" and dxs: "distinct xs" by simp_all
  from Cons.prems(3) ys nx nxs have s: "set (as @ bs) = set xs" by auto
  from Cons.IH [OF dxs d s] obtain r' where r': "shuffle r' xs = as @ bs" by blast
  from d dxs s have len: "length (as @ bs) = length xs"
    by (metis distinct_card)
  define n where "n = Suc (length xs)"
  let ?r = "r' * n + length as"
  from len have i: "length as < n" by (simp add: n_def)
  then have dv: "?r div n = r'" and md: "?r mod n = length as" by simp_all
  have "shuffle ?r (x # xs) =
      take (?r mod n) (shuffle (?r div n) xs) @ x # drop (?r mod n) (shuffle (?r div n) xs)"
    by (simp only: shuffle.simps Let_def n_def)
  also have "\<dots> = take (length as) (as @ bs) @ x # drop (length as) (as @ bs)"
    by (simp only: dv md r')
  also have "\<dots> = ys" by (simp add: ys)
  finally show ?case by blast
qed

lemma finite_uncarved: "finite (uncarved W H st)"
  by (simp add: uncarved_def inner_cells_def)

lemma inner_cells_iff: "(a, b) \<in> inner_cells W H \<longleftrightarrow> isInBounds W H a b"
  by (auto simp: inner_cells_def isInBounds_def)

lemma mark_carved_fields:
  "ms_carved (mark_carved x z st) = insert (x, z) (ms_carved st)"
  "ms_grid (mark_carved x z st) = set_cell (ms_grid st) x z PATH"
  by (simp_all add: mark_carved_def)

lemma open_wall_fields:
  "ms_carved (open_wall x z d st) = ms_carved st"
  "ms_grid (open_wall x z d st) = set_cell (ms_grid st) (x + fst d div 2) (z + snd d div 2) PATH"
  by (simp_all add: open_wall_def)

lemma finished_mono:
  "finished W H st c \<Longrightarrow> ms_carved st \<subseteq> ms_carved st' \<Longrightarrow> finished W H st' c"
  unfolding finished_def by blast

text \<open>Opening the wall towards an uncarved room and marking that room keeps the invariant.\<close>

lemma maze_inv_step:
  assumes inv: "maze_inv W H st" and p: "(x, z) \<in> ms_carved st"
    and d: "d \<in> set directions"
    and inb: "isInBounds W H (x + fst d) (z + snd d)"
    and nc: "(x + fst d, z + snd d) \<notin> ms_carved st"
  shows "maze_inv W H (mark_carved (x + fst d) (z + snd d) (open_wall x z d st))"
proof -
  obtain dx dz where dd: "d = (dx, dz)" by (cases d)
  let ?g = "ms_grid st"
  let ?mx = "x + dx div 2" and ?mz = "z + dz div 2" and ?rx = "x + dx" and ?rz = "z + dz"
  from inv have r0: "rect W H ?g" and lay: "layout_ok W H (open_cells ?g) (ms_carved st)"
    and tr: "tree_set (open_cells ?g)" by (simp_all add: maze_inv_def)
  from d dd have dc: "(dx, dz) \<in> set directions" by simp
  note cases = direction_cases [OF dc]
  from layout_carved [OF lay p] have pin: "isInBounds W H x z" by simp
  from pin inb dd cases have mr: "0 \<le> ?mx" "?mx < W" "0 \<le> ?mz" "?mz < H"
    by (auto simp: isInBounds_def)
  from inb dd have rr: "0 \<le> ?rx" "?rx < W" "0 \<le> ?rz" "?rz < H"
    by (auto simp: isInBounds_def)
  let ?g1 = "set_cell ?g ?mx ?mz PATH"
  let ?g2 = "set_cell ?g1 ?rx ?rz PATH"
  have r1: "rect W H ?g1" by (rule rect_set_cell [OF r0])
  have r2: "rect W H ?g2" by (rule rect_set_cell [OF r1])
  have o1: "open_cells ?g1 = insert (?mx, ?mz) (open_cells ?g)"
    by (rule open_cells_set_cell [OF r0 mr]) simp
  have o2: "open_cells ?g2 = insert (?rx, ?rz) (insert (?mx, ?mz) (open_cells ?g))"
    unfolding o1 [symmetric] by (rule open_cells_set_cell [OF r1 rr]) simp
  from inb nc dd have inb': "isInBounds W H ?rx ?rz" and nc': "(?rx, ?rz) \<notin> ms_carved st"
    by simp_all
  from layout_step [OF lay tr p dc inb' nc'] r2 o2 dd
  show ?thesis
    by (simp add: maze_inv_def mark_carved_fields open_wall_fields)
qed

lemma carve_total:
  "(maze_inv W H (mark_carved x z st) \<longrightarrow>
    card (uncarved W H (mark_carved x z st)) < n \<longrightarrow>
      (\<exists>st'. carve n rnd W H x z st = Some st' \<and>
         carve_post W H x z directions (mark_carved x z st) st'))"
  "(maze_inv W H st \<longrightarrow> (x, z) \<in> ms_carved st \<longrightarrow> set ds \<subseteq> set directions \<longrightarrow>
    card (uncarved W H st) \<le> n \<longrightarrow>
      (\<exists>st'. carve_dirs n rnd W H ds x z st = Some st' \<and> carve_post W H x z ds st st'))"
proof (induction n rnd W H x z st and n rnd W H ds x z st rule: carve_carve_dirs.induct)
  case (1 rnd width height x z st)
  show ?case by simp
next
  case (2 n rnd width height x z st)
  show ?case
  proof (intro impI)
    let ?st = "mark_carved x z st"
    let ?ds = "shuffle (rnd (ms_draws st)) directions"
    assume inv: "maze_inv width height ?st"
      and fuel: "card (uncarved width height ?st) < Suc n"
    have "(x, z) \<in> ms_carved ?st" by (simp add: mark_carved_fields)
    moreover have "set ?ds \<subseteq> set directions" by (simp add: set_shuffle)
    moreover from fuel have "card (uncarved width height ?st) \<le> n" by simp
    ultimately obtain st' where st': "carve_dirs n rnd width height ?ds x z ?st = Some st'"
      "carve_post width height x z ?ds ?st st'"
      using "2.IH" inv by blast
    from st'(2) have "carve_post width height x z directions ?st st'"
      by (simp add: carve_post_def set_shuffle)
    with st'(1) show "\<exists>st'. carve (Suc n) rnd width height x z st = Some st' \<and>
         carve_post width height x z directions ?st st'" by simp
  qed
next
  case (3 n rnd width height x z st)
  show ?case by (simp add: carve_post_def)
next
  case (4 n rnd width height dir dirs x z st)
  let ?rx = "x + fst dir" and ?rz = "z + snd dir"
  show ?case
  proof (intro impI)
    assume inv: "maze_inv width height st" and p: "(x, z) \<in> ms_carved st"
      and ds: "set (dir # dirs) \<subseteq> set directions"
      and fuel: "card (uncarved width height st) \<le> n"
    from ds have d: "dir \<in> set directions" and ds': "set dirs \<subseteq> set directions" by simp_all
    show "\<exists>st'. carve_dirs n rnd width height (dir # dirs) x z st = Some st' \<and>
         carve_post width height x z (dir # dirs) st st'"
    proof (cases "isInBounds width height ?rx ?rz \<and> (?rx, ?rz) \<notin> ms_carved st")
      case False
      from "4.IH"(3) [OF False] inv p ds' fuel
      obtain st' where st': "carve_dirs n rnd width height dirs x z st = Some st'"
        "carve_post width height x z dirs st st'" by blast
      from st'(2) False have "carve_post width height x z (dir # dirs) st st'"
        by (auto simp: carve_post_def)
      moreover have "carve_dirs n rnd width height (dir # dirs) x z st =
          carve_dirs n rnd width height dirs x z st"
        by (simp only: carve_dirs.simps(2) False if_False)
      ultimately show ?thesis using st'(1) by simp
    next
      case True
      let ?st1 = "open_wall x z dir st"
      let ?st2 = "mark_carved ?rx ?rz ?st1"
      from True have inb: "isInBounds width height ?rx ?rz"
        and nc: "(?rx, ?rz) \<notin> ms_carved st" by simp_all
      have inv2: "maze_inv width height ?st2" by (rule maze_inv_step [OF inv p d inb nc])
      have c2: "ms_carved ?st2 = insert (?rx, ?rz) (ms_carved st)"
        by (simp add: mark_carved_fields open_wall_fields)
      have u2: "uncarved width height ?st2 = uncarved width height st - {(?rx, ?rz)}"
        unfolding uncarved_def c2 by auto
      from inb nc have "(?rx, ?rz) \<in> uncarved width height st"
        by (simp add: uncarved_def inner_cells_iff)
      from card_Diff1_less [OF finite_uncarved this] fuel
      have f2: "card (uncarved width height ?st2) < n" unfolding u2 by simp
      from "4.IH"(1) [OF True] inv2 f2
      obtain st3 where st3: "carve n rnd width height ?rx ?rz ?st1 = Some st3"
        "carve_post width height ?rx ?rz directions ?st2 st3" by blast
      from st3(2) have inv3: "maze_inv width height st3"
        and sub3: "ms_carved ?st2 \<subseteq> ms_carved st3"
        and fin3: "\<forall>c \<in> ms_carved st3 - ms_carved ?st2. finished width height st3 c"
        and fr: "finished width height st3 (?rx, ?rz)"
        by (auto simp: carve_post_def finished_def)
      from sub3 p c2 have p3: "(x, z) \<in> ms_carved st3" by auto
      have "uncarved width height st3 \<subseteq> uncarved width height st"
        using sub3 c2 unfolding uncarved_def by auto
      from card_mono [OF finite_uncarved this] fuel
      have f3: "card (uncarved width height st3) \<le> n" by simp
      from "4.IH"(2) [OF True st3(1)] inv3 p3 ds' f3
      obtain st' where st': "carve_dirs n rnd width height dirs x z st3 = Some st'"
        "carve_post width height x z dirs st3 st'" by blast
      from st'(2) have inv': "maze_inv width height st'"
        and sub': "ms_carved st3 \<subseteq> ms_carved st'"
        and fin': "\<forall>c \<in> ms_carved st' - ms_carved st3. finished width height st' c"
        and dn': "\<forall>d \<in> set dirs. isInBounds width height (x + fst d) (z + snd d) \<longrightarrow>
            (x + fst d, z + snd d) \<in> ms_carved st'"
        by (simp_all add: carve_post_def)
      have a: "ms_carved st \<subseteq> ms_carved st'" using sub3 sub' c2 by auto
      have b: "finished width height st' c" if "c \<in> ms_carved st' - ms_carved st" for c
      proof (cases "c \<in> ms_carved st3")
        case False
        with that fin' show ?thesis by simp
      next
        case True
        have "finished width height st3 c"
        proof (cases "c = (?rx, ?rz)")
          case True
          with fr show ?thesis by simp
        next
          case False
          with \<open>c \<in> ms_carved st3\<close> that c2 fin3 show ?thesis by simp
        qed
        then show ?thesis using sub' by (rule finished_mono)
      qed
      have c: "(?rx, ?rz) \<in> ms_carved st'" using sub3 sub' c2 by auto
      from inv' a b c dn' have "carve_post width height x z (dir # dirs) st st'"
        by (simp add: carve_post_def)
      with True st3(1) st'(1) show ?thesis by simp
    qed
  qed
qed




lemma card_inner_cells:
  assumes "2 \<le> W" "2 \<le> H"
  shows "card (inner_cells W H) < nat (W * H)"
proof -
  have "card (inner_cells W H) = nat (W - 2) * nat (H - 2)"
    by (simp add: inner_cells_def)
  also have "\<dots> = nat ((W - 2) * (H - 2))" using assms by (simp add: nat_mult_distrib)
  also have "\<dots> < nat (W * H)"
  proof -
    have "(W - 2) * (H - 2) = W * H - 2 * W - 2 * H + 4" by (simp add: algebra_simps)
    moreover have "0 < W * H" using assms by simp
    ultimately show ?thesis using assms by linarith
  qed
  finally show ?thesis .
qed

text \<open>The carving, from the walled grid: it returns, and what it returns.\<close>

lemma carve_returns:
  assumes "3 \<le> W" "3 \<le> H"
  shows "\<exists>st. carve (nat (W * H)) rnd W H 1 1
           \<lparr>ms_grid = replicate (nat H) (replicate (nat W) WALL), ms_carved = {}, ms_draws = 0\<rparr>
             = Some st \<and>
         maze_inv W H st \<and> (1, 1) \<in> ms_carved st \<and>
         (\<forall>c \<in> ms_carved st. finished W H st c)"
proof -
  let ?g0 = "replicate (nat H) (replicate (nat W) WALL)"
  let ?st0 = "\<lparr>ms_grid = ?g0, ms_carved = {}, ms_draws = 0\<rparr>"
  let ?st1 = "mark_carved 1 1 ?st0"
  from assms have r0: "rect W H ?g0" by (intro rect_replicate) simp_all
  have g1: "ms_grid ?st1 = set_cell ?g0 1 1 PATH" and c1: "ms_carved ?st1 = {(1, 1)}"
    by (simp_all add: mark_carved_def)
  have r1: "rect W H (ms_grid ?st1)" unfolding g1 by (rule rect_set_cell [OF r0])
  have o1: "open_cells (ms_grid ?st1) = {(1, 1)}"
    unfolding g1 using open_cells_set_cell [OF r0, of 1 1 PATH] assms
    by (simp add: open_cells_replicate)
  have lay: "layout_ok W H {(1, 1)} {(1, 1)}"
    using assms by (simp add: layout_ok_def isInBounds_def)
  have inv1: "maze_inv W H ?st1"
    unfolding maze_inv_def o1 c1 using r1 lay by (simp add: tree_set.single)
  have "uncarved W H ?st1 \<subseteq> inner_cells W H" by (auto simp: uncarved_def)
  then have "card (uncarved W H ?st1) \<le> card (inner_cells W H)"
    by (intro card_mono) (simp_all add: inner_cells_def)
  also have "\<dots> < nat (W * H)" using assms by (intro card_inner_cells) simp_all
  finally have fuel: "card (uncarved W H ?st1) < nat (W * H)" .
  from carve_total(1) [of W H 1 1 ?st0 "nat (W * H)" rnd] inv1 fuel
  obtain st where st: "carve (nat (W * H)) rnd W H 1 1 ?st0 = Some st"
    "carve_post W H 1 1 directions ?st1 st" by blast
  from st(2) have inv: "maze_inv W H st" and sub: "ms_carved ?st1 \<subseteq> ms_carved st"
    and fin: "\<forall>c \<in> ms_carved st - ms_carved ?st1. finished W H st c"
    and f1: "finished W H st (1, 1)"
    by (auto simp: carve_post_def finished_def)
  from sub c1 have s1: "(1, 1) \<in> ms_carved st" by simp
  from fin f1 c1 have "\<forall>c \<in> ms_carved st. finished W H st c" by auto
  with st(1) inv s1 show ?thesis by blast
qed

lemma carve_dirs_narrow:
  "\<forall>a b. \<not> isInBounds W H a b \<Longrightarrow> carve_dirs n rnd W H ds x z st = Some st"
  by (induction ds) simp_all

lemma carve_bound_not_reached:
  assumes "2 \<le> W" "2 \<le> H"
  shows "carve (nat (W * H)) rnd W H 1 1
           \<lparr>ms_grid = replicate (nat H) (replicate (nat W) WALL), ms_carved = {}, ms_draws = 0\<rparr>
         \<noteq> None"
proof (cases "3 \<le> W \<and> 3 \<le> H")
  case True
  with carve_returns [of W H rnd] show ?thesis by auto
next
  case False
  with assms have "W = 2 \<or> H = 2" by auto
  then have narrow: "\<forall>a b. \<not> isInBounds W H a b" by (auto simp: isInBounds_def)
  from assms have "2 * 2 \<le> W * H" by (intro mult_mono) simp_all
  then obtain k where k: "nat (W * H) = Suc k" by (cases "nat (W * H)") simp_all
  show ?thesis unfolding k by (simp add: carve_dirs_narrow [OF narrow])
qed



end
